theory Spec2Isabelle
  imports Main "HOL-Library.Sublist"
begin

section \<open>Text\<close>

text \<open>
  A Python \<^verbatim>\<open>str\<close> is a sequence of Unicode code points. A code point is a natural
  number; the literals of the program are ASCII and are written through \<open>u\<close>.
  The backslash cannot be written inside a string literal, so it appears as \<open>BSL\<close>.
\<close>

type_synonym uchar = nat
type_synonym ustr = "uchar list"

definition u :: "string \<Rightarrow> ustr" where
  "u s = map of_char s"

abbreviation (input) BSL :: uchar where "BSL \<equiv> 92"
abbreviation (input) SEMI :: uchar where "SEMI \<equiv> 59"
abbreviation (input) EQS :: uchar where "EQS \<equiv> 61"

text \<open>
  The character classes of the \<^verbatim>\<open>re\<close> module, for \<^verbatim>\<open>str\<close> patterns, follow the Unicode
  database of the interpreter. On ASCII they are fixed: \<^verbatim>\<open>\s\<close> is tab, newline, vertical
  tab, form feed, carriage return, the four separators 28 to 31 and the space; a word
  character is a letter, a digit or the underscore. Beyond ASCII the database decides; it
  is not part of the repository and is a parameter of the model.
\<close>

record ucd =
  uspace :: "uchar \<Rightarrow> bool"
  ualnum :: "uchar \<Rightarrow> bool"

definition ascii_alnum :: "uchar \<Rightarrow> bool" where
  "ascii_alnum c = ((48 \<le> c \<and> c \<le> 57) \<or> (65 \<le> c \<and> c \<le> 90) \<or> (97 \<le> c \<and> c \<le> 122))"

definition is_space :: "ucd \<Rightarrow> uchar \<Rightarrow> bool" where
  "is_space U c = (if c < 128 then (9 \<le> c \<and> c \<le> 13) \<or> (28 \<le> c \<and> c \<le> 32) else uspace U c)"

definition is_word :: "ucd \<Rightarrow> uchar \<Rightarrow> bool" where
  "is_word U c = (if c < 128 then ascii_alnum c \<or> c = 95 else ualnum U c)"

text \<open>A database that knows no whitespace and no letter beyond ASCII, for concrete runs.\<close>

definition ascii_ucd :: ucd where
  "ascii_ucd = \<lparr> uspace = (\<lambda>c. False), ualnum = (\<lambda>c. False) \<rparr>"

section \<open>Regular expressions: the fragment of \<^verbatim>\<open>re\<close> the program uses\<close>

text \<open>
  \<^verbatim>\<open>re.escape\<close>: a backslash before each of the characters
  \<^verbatim>\<open>()[]{}?*+-|^$\.&~#\<close>, space, tab, newline, carriage return, vertical tab and form
  feed; every other character is kept.
\<close>

definition special_chars :: "uchar list" where
  "special_chars = [40, 41, 91, 93, 123, 125, 63, 42, 43, 45, 124, 94, 36, 92, 46, 38, 126, 35,
                    32, 9, 10, 13, 11, 12]"

definition re_escape :: "ustr \<Rightarrow> ustr" where
  "re_escape s = concat (map (\<lambda>c. if c \<in> set special_chars then [BSL, c] else [c]) s)"

text \<open>
  A compiled pattern is a sequence of items: a character class with its repetition
  (once, greedy \<^verbatim>\<open>*\<close>, greedy \<^verbatim>\<open>+\<close>), the word boundary \<^verbatim>\<open>\b\<close>, and the opening and
  closing of a numbered capturing group.
\<close>

datatype cls = Lit uchar | NotLit uchar | Space
datatype rep = One | Star | Plus
datatype item = Atom cls rep | Bnd | Open nat | Close nat

text \<open>
  The pattern syntax read here: a literal character, an escaped non-alphanumeric
  character, \<^verbatim>\<open>\s\<close>, \<^verbatim>\<open>\b\<close>, the negated one-character set \<^verbatim>\<open>[^c]\<close>, the greedy
  repetitions \<^verbatim>\<open>*\<close> and \<^verbatim>\<open>+\<close> of one of these, and capturing groups numbered from 1 by
  their opening parenthesis. Anything else (alternation, anchors, the dot, lazy or counted
  repetition, a repeated group, other sets and escapes) yields \<open>None\<close>: every pattern of
  the program lies inside the fragment.
\<close>

definition meta_chars :: "uchar list" where
  "meta_chars = [46, 94, 36, 42, 43, 63, 123, 125, 124, 40, 41]"

definition is_rep_char :: "uchar \<Rightarrow> bool" where
  "is_rep_char c = (c = 42 \<or> c = 43 \<or> c = 63 \<or> c = 123)"

fun atom :: "ustr \<Rightarrow> (cls \<times> ustr) option" where
  "atom [] = None"
| "atom (c # r) =
    (if c = BSL then
       (case r of
          [] \<Rightarrow> None
        | d # r' \<Rightarrow> if d = 115 then Some (Space, r')
                   else if ascii_alnum d then None
                   else Some (Lit d, r'))
     else if c = 91 then
       (case r of
          a # d # e # r' \<Rightarrow>
            if a = 94 \<and> e = 93 \<and> d \<notin> set [92, 93, 91, 94, 45] then Some (NotLit d, r') else None
        | _ \<Rightarrow> None)
     else if c \<in> set meta_chars then None
     else Some (Lit c, r))"

fun quant :: "ustr \<Rightarrow> (rep \<times> ustr) option" where
  "quant [] = Some (One, [])"
| "quant (c # r) =
    (if c = 42 \<or> c = 43 then
       (case r of
          [] \<Rightarrow> Some (if c = 42 then Star else Plus, r)
        | d # r' \<Rightarrow> if is_rep_char d then None else Some (if c = 42 then Star else Plus, r))
     else if is_rep_char c then None
     else Some (One, c # r))"

lemma atom_shorter: "atom s = Some (c, r) \<Longrightarrow> length r < length s"
  by (cases s) (auto split: if_splits list.splits)

lemma quant_shorter: "quant s = Some (q, r) \<Longrightarrow> length r \<le> length s"
  by (cases s) (auto split: if_splits list.splits)

function compile_at :: "nat \<Rightarrow> nat list \<Rightarrow> ustr \<Rightarrow> item list option" where
  "compile_at n st [] = (if st = [] then Some [] else None)"
| "compile_at n st (c # r) =
    (if c = 40 then
       (case r of
          [] \<Rightarrow> None
        | d # r' \<Rightarrow> if d = 63 then None
                   else map_option ((#) (Open n)) (compile_at (Suc n) (n # st) r))
     else if c = 41 then
       (case st of
          [] \<Rightarrow> None
        | g # st' \<Rightarrow> if r \<noteq> [] \<and> is_rep_char (hd r) then None
                    else map_option ((#) (Close g)) (compile_at n st' r))
     else if c = BSL \<and> r \<noteq> [] \<and> hd r = 98 then
       (if tl r \<noteq> [] \<and> is_rep_char (hd (tl r)) then None
        else map_option ((#) Bnd) (compile_at n st (tl r)))
     else
       (case atom (c # r) of
          None \<Rightarrow> None
        | Some (a, r1) \<Rightarrow>
            (case quant r1 of
               None \<Rightarrow> None
             | Some (q, r2) \<Rightarrow> map_option ((#) (Atom a q)) (compile_at n st r2))))"
  by pat_completeness auto
termination
proof (relation "measure (\<lambda>(n, st, s). length s)")
  show "wf (measure (\<lambda>(n, st, s). length s))" by simp
next
  fix n :: nat and st :: "nat list" and c :: uchar and r :: ustr and d r'
  assume "r = d # r'"
  then show "((Suc n, n # st, r), (n, st, c # r)) \<in> measure (\<lambda>(n, st, s). length s)" by simp
next
  fix n :: nat and st :: "nat list" and c :: uchar and r :: ustr and g st'
  show "((n, st', r), (n, st, c # r)) \<in> measure (\<lambda>(n, st, s). length s)" by simp
next
  fix n :: nat and st :: "nat list" and c :: uchar and r :: ustr
  show "((n, st, tl r), (n, st, c # r)) \<in> measure (\<lambda>(n, st, s). length s)" by simp
next
  fix n :: nat and st :: "nat list" and c :: uchar and r :: ustr and x2 a r1 x2a q r2
  assume "atom (c # r) = Some x2" "(a, r1) = x2" "quant r1 = Some x2a" "(q, r2) = x2a"
  then have "length r1 < length (c # r)" "length r2 \<le> length r1"
    using atom_shorter [of "c # r" a r1] quant_shorter [of r1 q r2] by auto
  then show "((n, st, r2), (n, st, c # r)) \<in> measure (\<lambda>(n, st, s). length s)" by simp
qed

definition re_compile :: "ustr \<Rightarrow> item list option" where
  "re_compile pattern = compile_at 1 [] pattern"

definition ngroups :: "item list \<Rightarrow> nat" where
  "ngroups rx = length (filter (\<lambda>i. case i of Open n \<Rightarrow> True | _ \<Rightarrow> False) rx)"

subsection \<open>Matching\<close>

text \<open>
  A cursor is a position in the subject: the character before it, if any, and the text
  from it on. \<^verbatim>\<open>\b\<close> holds where exactly one of the two neighbours is a word character.
\<close>

type_synonym cursor = "uchar option \<times> ustr"

definition boundary :: "ucd \<Rightarrow> uchar option \<Rightarrow> ustr \<Rightarrow> bool" where
  "boundary U p s =
     ((case p of None \<Rightarrow> False | Some c \<Rightarrow> is_word U c) \<noteq>
      (case s of [] \<Rightarrow> False | c # _ \<Rightarrow> is_word U c))"

fun cls_ok :: "ucd \<Rightarrow> cls \<Rightarrow> uchar \<Rightarrow> bool" where
  "cls_ok U (Lit c) x = (x = c)"
| "cls_ok U (NotLit c) x = (x \<noteq> c)"
| "cls_ok U Space x = is_space U x"

definition run :: "ucd \<Rightarrow> cls \<Rightarrow> ustr \<Rightarrow> nat" where
  "run U c s = length (takeWhile (cls_ok U c) s)"

definition advance :: "uchar option \<Rightarrow> ustr \<Rightarrow> nat \<Rightarrow> cursor" where
  "advance p s k = (if k = 0 then (p, s) else (Some (s ! (k - 1)), drop k s))"

fun first_some :: "('a \<Rightarrow> 'b option) \<Rightarrow> 'a list \<Rightarrow> 'b option" where
  "first_some f [] = None"
| "first_some f (x # xs) = (case f x of Some y \<Rightarrow> Some y | None \<Rightarrow> first_some f xs)"

text \<open>
  The backtracking matcher. A greedy repetition tries the longest run first and gives
  characters back one at a time until the rest of the pattern matches. The result is the
  cursor after the match and the captured groups.
\<close>

fun rmatch :: "ucd \<Rightarrow> item list \<Rightarrow> uchar option \<Rightarrow> ustr \<Rightarrow> (nat \<rightharpoonup> ustr) \<Rightarrow> (nat \<rightharpoonup> ustr)
               \<Rightarrow> (cursor \<times> (nat \<rightharpoonup> ustr)) option" where
  "rmatch U [] p s os cs = Some ((p, s), cs)"
| "rmatch U (Bnd # rx) p s os cs =
     (if boundary U p s then rmatch U rx p s os cs else None)"
| "rmatch U (Open n # rx) p s os cs = rmatch U rx p s (os(n \<mapsto> s)) cs"
| "rmatch U (Close n # rx) p s os cs =
     (case os n of
        None \<Rightarrow> None
      | Some b \<Rightarrow> rmatch U rx p s os (cs(n \<mapsto> take (length b - length s) b)))"
| "rmatch U (Atom c One # rx) p s os cs =
     (case s of
        [] \<Rightarrow> None
      | x # xs \<Rightarrow> if cls_ok U c x then rmatch U rx (Some x) xs os cs else None)"
| "rmatch U (Atom c Star # rx) p s os cs =
     first_some (\<lambda>k. rmatch U rx (fst (advance p s k)) (snd (advance p s k)) os cs)
       (rev [0 ..< Suc (run U c s)])"
| "rmatch U (Atom c Plus # rx) p s os cs =
     first_some (\<lambda>k. rmatch U rx (fst (advance p s k)) (snd (advance p s k)) os cs)
       (rev [1 ..< Suc (run U c s)])"

subsection \<open>Replacement templates and \<^verbatim>\<open>re.sub\<close>\<close>

text \<open>
  A template is literal text and group references \<^verbatim>\<open>\g<n>\<close>; any other backslash is outside
  the fragment. A reference to a group the pattern does not have is the error
  \<^verbatim>\<open>invalid group reference\<close>, raised before any matching; a group that took no part in
  the match expands to the empty string.
\<close>

datatype titem = TLit uchar | TGrp nat

definition is_digit :: "uchar \<Rightarrow> bool" where
  "is_digit c = (48 \<le> c \<and> c \<le> 57)"

definition digits_val :: "ustr \<Rightarrow> nat" where
  "digits_val ds = foldl (\<lambda>a d. 10 * a + (d - 48)) 0 ds"

lemma dropWhile_shorter:
  "length (dropWhile P xs) - Suc 0 < Suc (Suc (Suc (length xs)))"
  using length_dropWhile_le [of P xs] by simp

function parse_template :: "ustr \<Rightarrow> titem list option" where
  "parse_template [] = Some []"
| "parse_template (c # r) =
    (if c = BSL then
       (case r of
          g # l # r' \<Rightarrow>
            if g = 103 \<and> l = 60 \<and> takeWhile is_digit r' \<noteq> [] \<and>
               dropWhile is_digit r' \<noteq> [] \<and> hd (dropWhile is_digit r') = 62
            then map_option ((#) (TGrp (digits_val (takeWhile is_digit r'))))
                   (parse_template (tl (dropWhile is_digit r')))
            else None
        | _ \<Rightarrow> None)
     else map_option ((#) (TLit c)) (parse_template r))"
  by pat_completeness auto
termination
  by (relation "measure length") (auto simp: dropWhile_shorter)

fun trefs :: "titem list \<Rightarrow> nat list" where
  "trefs [] = []"
| "trefs (TLit c # t) = trefs t"
| "trefs (TGrp n # t) = n # trefs t"

fun expand :: "titem list \<Rightarrow> (nat \<rightharpoonup> ustr) \<Rightarrow> ustr" where
  "expand [] cs = []"
| "expand (TLit c # t) cs = c # expand t cs"
| "expand (TGrp n # t) cs = (case cs n of None \<Rightarrow> [] | Some g \<Rightarrow> g) @ expand t cs"

text \<open>
  The scan of \<^verbatim>\<open>re.sub\<close>: at each position, from left to right, the first match of the
  pattern is replaced by the expanded template and the scan goes on after it; where the
  pattern does not match, the character is copied. Group 0 is the whole match. An empty
  match is replaced and the next character copied; no pattern of the program matches the
  empty string.
\<close>

function sub_scan :: "ucd \<Rightarrow> item list \<Rightarrow> titem list \<Rightarrow> uchar option \<Rightarrow> ustr \<Rightarrow> ustr" where
  "sub_scan U rx t p s =
     (case rmatch U rx p s Map.empty Map.empty of
        None \<Rightarrow> (case s of [] \<Rightarrow> [] | x # xs \<Rightarrow> x # sub_scan U rx t (Some x) xs)
      | Some ((p', s'), cs) \<Rightarrow>
          if length s' < length s
          then expand t (cs(0 \<mapsto> take (length s - length s') s)) @ sub_scan U rx t p' s'
          else expand t (cs(0 \<mapsto> [])) @
               (case s of [] \<Rightarrow> [] | x # xs \<Rightarrow> x # sub_scan U rx t (Some x) xs))"
  by pat_completeness auto
termination
  by (relation "measure (\<lambda>(U, rx, t, p, s). length s)") auto

declare sub_scan.simps [simp del]

datatype re_error = Unsupported | InvalidGroupReference

definition re_sub :: "ucd \<Rightarrow> ustr \<Rightarrow> ustr \<Rightarrow> ustr \<Rightarrow> re_error + ustr" where
  "re_sub U pattern repl string =
     (case re_compile pattern of
        None \<Rightarrow> Inl Unsupported
      | Some rx \<Rightarrow>
          (case parse_template repl of
             None \<Rightarrow> Inl Unsupported
           | Some t \<Rightarrow>
               if filter (\<lambda>n. ngroups rx < n) (trefs t) \<noteq> [] then Inl InvalidGroupReference
               else Inr (sub_scan U rx t None string)))"

section \<open>The rule tables of \<^verbatim>\<open>scripts/patcher.py\<close>\<close>

text \<open>A patch rule \<^verbatim>\<open>PT\<close> is a triple: pattern, replacement template, identifier.\<close>

type_synonym PT = "ustr \<times> ustr \<times> ustr"

text \<open>
  \<^verbatim>\<open>mk_asgn(var)\<close> is the raw f-string \<^verbatim>\<open>(\b{esc}\s*=\s*)([^;]+);\<close> with
  \<^verbatim>\<open>esc = re.escape(var)\<close>.
\<close>

definition mk_asgn :: "ustr \<Rightarrow> ustr" where
  "mk_asgn var =
     (let esc = re_escape var
      in u ''('' @ BSL # u ''b'' @ esc @ BSL # u ''s*='' @ BSL # u ''s*)([^;]+);'')"

text \<open>The replacement \<^verbatim>\<open>\g<1>v\<close>, written \<open>g1 v\<close>.\<close>

definition g1 :: "string \<Rightarrow> ustr" where
  "g1 v = BSL # u ''g<1>'' @ u v"

definition GPU_P :: "PT list" where
  "GPU_P =
    [(mk_asgn (u ''adapter_id.vendor_id''), g1 ''0x1002;'', u ''gpu_vid''),
     (mk_asgn (u ''adapter_id.device_id''), g1 ''0x73DF;'', u ''gpu_did''),
     (u ''(SharedSystemMemory'' @ BSL # u ''s*='' @ BSL # u ''s*)[^;]+;'',
        g1 ''16384ULL * 1024 * 1024;'', u ''gpu_mem'')]"

definition SM_P :: "PT list" where
  "SM_P =
    [(mk_asgn (u ''data->HighestShaderModel''), g1 ''D3D_SHADER_MODEL_6_7;'', u ''sm''),
     (mk_asgn (u ''info.HighestShaderModel''), g1 ''D3D_SHADER_MODEL_6_7;'', u ''sm_info'')]"

definition WV_P :: "PT list" where
  "WV_P =
    [(mk_asgn (u ''options1.WaveOps''), g1 ''TRUE;'', u ''wv0''),
     (mk_asgn (u ''options1.WaveLaneCountMin''), g1 ''32;'', u ''wv1''),
     (mk_asgn (u ''options1.WaveLaneCountMax''), g1 ''128;'', u ''wv2'')]"

definition RB_P :: "PT list" where
  "RB_P =
    [(mk_asgn (u ''options.ResourceBindingTier''), g1 ''D3D12_RESOURCE_BINDING_TIER_3;'', u ''rb0''),
     (mk_asgn (u ''options.TiledResourcesTier''), g1 ''D3D12_TILED_RESOURCES_TIER_4;'', u ''rb1''),
     (mk_asgn (u ''options.ResourceHeapTier''), g1 ''D3D12_RESOURCE_HEAP_TIER_2;'', u ''rb2'')]"

definition SO_P :: "PT list" where
  "SO_P =
    [(mk_asgn (u ''options.DoublePrecisionFloatShaderOps''), g1 ''TRUE;'', u ''so0''),
     (mk_asgn (u ''options1.Int64ShaderOps''), g1 ''TRUE;'', u ''so1''),
     (mk_asgn (u ''options4.Native16BitShaderOpsSupported''), g1 ''TRUE;'', u ''so2'')]"

definition MS_P :: "PT list" where
  "MS_P =
    [(mk_asgn (u ''options7.MeshShaderTier''), g1 ''D3D12_MESH_SHADER_TIER_1;'', u ''ms0''),
     (mk_asgn (u ''options12.EnhancedBarriersSupported''), g1 ''TRUE;'', u ''ms7'')]"

definition RT_P :: "PT list" where
  "RT_P =
    [(mk_asgn (u ''options5.RaytracingTier''), g1 ''D3D12_RAYTRACING_TIER_1_1;'', u ''rt0''),
     (mk_asgn (u ''options5.RenderPassesTier''), g1 ''D3D12_RENDER_PASS_TIER_2;'', u ''rt1''),
     (mk_asgn (u ''options6.VariableShadingRateTier''),
        g1 ''D3D12_VARIABLE_SHADING_RATE_TIER_2;'', u ''rt2''),
     (mk_asgn (u ''options6.ShadingRateImageTileSize''), g1 ''8;'', u ''rt3''),
     (mk_asgn (u ''options6.BackgroundProcessingSupported''), g1 ''TRUE;'', u ''rt4'')]"

definition SF_P :: "PT list" where
  "SF_P =
    [(mk_asgn (u ''options7.SamplerFeedbackTier''), g1 ''D3D12_SAMPLER_FEEDBACK_TIER_1_0;'', u ''sf0''),
     (mk_asgn (u ''options2.DepthBoundsTestSupported''), g1 ''TRUE;'', u ''sf1'')]"

definition TX_P :: "PT list" where
  "TX_P =
    [(mk_asgn (u ''options8.UnalignedBlockTexturesSupported''), g1 ''TRUE;'', u ''tx0'')]"

definition RN_P :: "PT list" where
  "RN_P =
    [(mk_asgn (u ''options15.TriangleFanSupported''), g1 ''TRUE;'', u ''rn4'')]"

section \<open>\<^verbatim>\<open>HighPatcher\<close>\<close>

record HighPatcher =
  profile :: ustr

definition CAP_F :: "ustr list" where
  "CAP_F = [u ''device.c'']"

definition EX_D :: "ustr list" where
  "EX_D = [u ''tests'', u ''demos'', u ''include'', u ''.git'']"

text \<open>
  The filesystem the program runs in. A path names nothing, a directory, or a regular
  file with its text and its permissions. The text of a file is what \<^verbatim>\<open>read()\<close> returns
  for it: the file is opened with \<^verbatim>\<open>encoding='utf-8', errors='ignore'\<close>, so decoding drops
  what it cannot decode and never raises. \<^verbatim>\<open>glob.glob(pattern, recursive=True)\<close> is a
  library traversal; its result for each pattern is part of the world. The world also
  records every write, in order, and every line given to \<^verbatim>\<open>log.info\<close>.
\<close>

record regfile =
  ftext :: ustr
  readable :: bool
  writable :: bool

datatype node = File regfile | Dir

record world =
  nodes :: "ustr \<rightharpoonup> node"
  globr :: "ustr \<Rightarrow> ustr list"
  writes :: "(ustr \<times> ustr) list"
  logged :: "ustr list"

datatype os_error = FileNotFoundError | IsADirectoryError | PermissionError

datatype py_error = OSError os_error | ReError re_error

definition isdir :: "world \<Rightarrow> ustr \<Rightarrow> bool" where
  "isdir w d = (nodes w d = Some Dir)"

text \<open>\<^verbatim>\<open>open(fp, 'r', ...)\<close> and \<^verbatim>\<open>f.read()\<close>.\<close>

definition read_text :: "world \<Rightarrow> ustr \<Rightarrow> os_error + ustr" where
  "read_text w fp =
     (case nodes w fp of
        None \<Rightarrow> Inl FileNotFoundError
      | Some Dir \<Rightarrow> Inl IsADirectoryError
      | Some (File f) \<Rightarrow> if readable f then Inr (ftext f) else Inl PermissionError)"

text \<open>\<^verbatim>\<open>open(fp, 'w', ...)\<close> and \<^verbatim>\<open>f.write(content)\<close>.\<close>

definition write_text :: "world \<Rightarrow> ustr \<Rightarrow> ustr \<Rightarrow> os_error + world" where
  "write_text w fp txt =
     (case nodes w fp of
        None \<Rightarrow>
          Inr (w\<lparr>nodes := (nodes w)(fp \<mapsto> File \<lparr>ftext = txt, readable = True, writable = True\<rparr>),
                 writes := writes w @ [(fp, txt)]\<rparr>)
      | Some Dir \<Rightarrow> Inl IsADirectoryError
      | Some (File f) \<Rightarrow>
          if writable f
          then Inr (w\<lparr>nodes := (nodes w)(fp \<mapsto> File (f\<lparr>ftext := txt\<rparr>)),
                      writes := writes w @ [(fp, txt)]\<rparr>)
          else Inl PermissionError)"

text \<open>\<^verbatim>\<open>os.path.join\<close> (POSIX): a component that starts with a slash replaces what came before.\<close>

definition join2 :: "ustr \<Rightarrow> ustr \<Rightarrow> ustr" where
  "join2 a b =
     (if b \<noteq> [] \<and> hd b = 47 then b
      else if a = [] \<or> last a = 47 then a @ b
      else a @ 47 # b)"

definition path_join :: "ustr \<Rightarrow> ustr list \<Rightarrow> ustr" where
  "path_join a ps = foldl join2 a ps"

text \<open>\<^verbatim>\<open>ex in f\<close>: the string \<open>ex\<close> occurs somewhere in \<open>f\<close>.\<close>

fun contains :: "ustr \<Rightarrow> ustr \<Rightarrow> bool" where
  "contains ex [] = (ex = [])"
| "contains ex (c # cs) = (prefix ex (c # cs) \<or> contains ex cs)"

definition find_files :: "HighPatcher \<Rightarrow> world \<Rightarrow> ustr \<Rightarrow> ustr \<Rightarrow> ustr list" where
  "find_files self w src pat =
     (let files = globr w (path_join src [u ''**'', pat])
      in filter (\<lambda>f. filter (\<lambda>ex. contains ex f) EX_D = []) files)"

fun apply_content :: "ucd \<Rightarrow> HighPatcher \<Rightarrow> ustr \<Rightarrow> PT list \<Rightarrow> re_error + ustr" where
  "apply_content U self content [] = Inr content"
| "apply_content U self content ((pattern, repl, ident) # patches) =
     (case re_sub U pattern repl content of
        Inl e \<Rightarrow> Inl e
      | Inr content' \<Rightarrow> apply_content U self content' patches)"

definition vkd3d_dirs :: "ustr \<Rightarrow> ustr list" where
  "vkd3d_dirs src = [path_join src [u ''libs'', u ''vkd3d''], path_join src [u ''src''], src]"

definition target_dir :: "world \<Rightarrow> ustr \<Rightarrow> ustr" where
  "target_dir w src =
     (case find (\<lambda>d. isdir w d \<and> globr w (path_join d [u ''**'', u ''device.c'']) \<noteq> [])
             (vkd3d_dirs src) of
        None \<Rightarrow> src
      | Some d \<Rightarrow> d)"

definition cap_files :: "HighPatcher \<Rightarrow> world \<Rightarrow> ustr \<Rightarrow> ustr list" where
  "cap_files self w src = concat (map (\<lambda>cf. find_files self w (target_dir w src) cf) CAP_F)"

definition patches_of :: "HighPatcher \<Rightarrow> PT list" where
  "patches_of self =
     (if profile self = u ''high''
      then GPU_P @ SM_P @ WV_P @ RB_P @ SO_P @ MS_P @ RT_P @ SF_P @ TX_P @ RN_P
      else GPU_P)"

text \<open>The loop over \<^verbatim>\<open>cap_files\<close>: an exception ends the run where it is raised.\<close>

fun patch_loop :: "ucd \<Rightarrow> HighPatcher \<Rightarrow> PT list \<Rightarrow> ustr list \<Rightarrow> world \<Rightarrow> (py_error + unit) \<times> world" where
  "patch_loop U self patches [] w = (Inr (), w)"
| "patch_loop U self patches (fp # fps) w =
     (case read_text w fp of
        Inl e \<Rightarrow> (Inl (OSError e), w)
      | Inr content \<Rightarrow>
          (case apply_content U self content patches of
             Inl e \<Rightarrow> (Inl (ReError e), w)
           | Inr content' \<Rightarrow>
               (case write_text w fp content' of
                  Inl e \<Rightarrow> (Inl (OSError e), w)
                | Inr w' \<Rightarrow>
                    patch_loop U self patches fps
                      (w'\<lparr>logged := logged w' @ [u ''Patched: '' @ fp]\<rparr>))))"

text \<open>\<^verbatim>\<open>HighPatcher.apply(src)\<close>: the value returned, or the exception, and the world it leaves.\<close>

definition HighPatcher_apply :: "ucd \<Rightarrow> HighPatcher \<Rightarrow> ustr \<Rightarrow> world \<Rightarrow> (py_error + int) \<times> world" where
  "HighPatcher_apply U self src w =
     (case patch_loop U self (patches_of self) (cap_files self w src) w of
        (Inl e, w') \<Rightarrow> (Inl e, w')
      | (Inr _, w') \<Rightarrow> (Inr 0, w'))"


section \<open>What an assignment pattern matches\<close>

text \<open>
  The two pattern shapes of the rule tables, compiled: \<open>asgn_rx True name\<close> is what
  \<^verbatim>\<open>mk_asgn(name)\<close> compiles to (word boundary, two groups), \<open>asgn_rx False name\<close> is the
  hand-written shape of the \<^verbatim>\<open>SharedSystemMemory\<close> rule (no boundary, one group).
\<close>

definition asgn_rx :: "bool \<Rightarrow> ustr \<Rightarrow> item list" where
  "asgn_rx g name =
     Open 1 # (if g then [Bnd] else []) @ map (\<lambda>c. Atom (Lit c) One) name @
     Atom Space Star # Atom (Lit EQS) One # Atom Space Star # Close 1 #
     (if g then [Open 2] else []) @ Atom (NotLit SEMI) Plus #
     (if g then [Close 2] else []) @ [Atom (Lit SEMI) One]"

text \<open>
  The same match described directly on the text: the name, whitespace, the equals sign,
  then the text up to the next semicolon, which must not be empty. Group 1 ends after the
  whitespace that follows the equals sign, except that when the whole text before the
  semicolon is whitespace its last character is left to the value.
\<close>

definition lead :: "ucd \<Rightarrow> ustr \<Rightarrow> ustr" where
  "lead U t = (if dropWhile (is_space U) t = [] then butlast t else takeWhile (is_space U) t)"

definition asgn_at :: "ucd \<Rightarrow> bool \<Rightarrow> ustr \<Rightarrow> uchar option \<Rightarrow> ustr \<Rightarrow> (ustr \<times> ustr \<times> ustr) option" where
  "asgn_at U g name p s =
     (let r1 = drop (length name) s;
          r2 = dropWhile (is_space U) r1;
          T = takeWhile (\<lambda>x. x \<noteq> SEMI) (tl r2);
          R = dropWhile (\<lambda>x. x \<noteq> SEMI) (tl r2)
      in if (if g then boundary U p s else True) \<and> prefix name s \<and> r2 \<noteq> [] \<and> hd r2 = EQS \<and>
            T \<noteq> [] \<and> R \<noteq> []
         then Some (name @ takeWhile (is_space U) r1 @ EQS # lead U T, drop (length (lead U T)) T, tl R)
         else None)"

section \<open>The rule tables, described\<close>

text \<open>
  A rule of the tables is determined by three things: whether its pattern came from
  \<^verbatim>\<open>mk_asgn\<close>, the variable name, and the value its template writes. \<open>describes\<close> ties
  such a triple to the pattern and template strings of the program.
\<close>

type_synonym arule = "bool \<times> ustr \<times> ustr"

definition describes :: "arule \<Rightarrow> PT \<Rightarrow> bool" where
  "describes r pt =
     (case r of (g, name, v) \<Rightarrow>
        (case pt of (pattern, repl, ident) \<Rightarrow>
           re_compile pattern = Some (asgn_rx g name) \<and>
           parse_template repl = Some (TGrp 1 # map TLit (v @ [SEMI]))))"

definition gpu_rules :: "arule list" where
  "gpu_rules =
    [(True, u ''adapter_id.vendor_id'', u ''0x1002''),
     (True, u ''adapter_id.device_id'', u ''0x73DF''),
     (False, u ''SharedSystemMemory'', u ''16384ULL * 1024 * 1024'')]"

definition more_rules :: "arule list" where
  "more_rules =
    [(True, u ''data->HighestShaderModel'', u ''D3D_SHADER_MODEL_6_7''),
     (True, u ''info.HighestShaderModel'', u ''D3D_SHADER_MODEL_6_7''),
     (True, u ''options1.WaveOps'', u ''TRUE''),
     (True, u ''options1.WaveLaneCountMin'', u ''32''),
     (True, u ''options1.WaveLaneCountMax'', u ''128''),
     (True, u ''options.ResourceBindingTier'', u ''D3D12_RESOURCE_BINDING_TIER_3''),
     (True, u ''options.TiledResourcesTier'', u ''D3D12_TILED_RESOURCES_TIER_4''),
     (True, u ''options.ResourceHeapTier'', u ''D3D12_RESOURCE_HEAP_TIER_2''),
     (True, u ''options.DoublePrecisionFloatShaderOps'', u ''TRUE''),
     (True, u ''options1.Int64ShaderOps'', u ''TRUE''),
     (True, u ''options4.Native16BitShaderOpsSupported'', u ''TRUE''),
     (True, u ''options7.MeshShaderTier'', u ''D3D12_MESH_SHADER_TIER_1''),
     (True, u ''options12.EnhancedBarriersSupported'', u ''TRUE''),
     (True, u ''options5.RaytracingTier'', u ''D3D12_RAYTRACING_TIER_1_1''),
     (True, u ''options5.RenderPassesTier'', u ''D3D12_RENDER_PASS_TIER_2''),
     (True, u ''options6.VariableShadingRateTier'', u ''D3D12_VARIABLE_SHADING_RATE_TIER_2''),
     (True, u ''options6.ShadingRateImageTileSize'', u ''8''),
     (True, u ''options6.BackgroundProcessingSupported'', u ''TRUE''),
     (True, u ''options7.SamplerFeedbackTier'', u ''D3D12_SAMPLER_FEEDBACK_TIER_1_0''),
     (True, u ''options2.DepthBoundsTestSupported'', u ''TRUE''),
     (True, u ''options8.UnalignedBlockTexturesSupported'', u ''TRUE''),
     (True, u ''options15.TriangleFanSupported'', u ''TRUE'')]"

definition rule_sub :: "ucd \<Rightarrow> arule \<Rightarrow> ustr \<Rightarrow> ustr" where
  "rule_sub U r s =
     (case r of (g, name, v) \<Rightarrow> sub_scan U (asgn_rx g name) (TGrp 1 # map TLit (v @ [SEMI])) None s)"

definition rules_sub :: "ucd \<Rightarrow> arule list \<Rightarrow> ustr \<Rightarrow> ustr" where
  "rules_sub U rs s = foldl (\<lambda>s r. rule_sub U r s) s rs"

section \<open>Notions of the specification\<close>

text \<open>
  The segments of a path, as \<^verbatim>\<open>f.split('/')\<close> gives them, and the reading of ``lies under
  an excluded directory'': one of the directory segments of the path (all but the last) is
  an excluded name.
\<close>

fun split_on :: "uchar \<Rightarrow> ustr \<Rightarrow> ustr list" where
  "split_on c [] = [[]]"
| "split_on c (x # xs) =
     (if x = c then [] # split_on c xs
      else (case split_on c xs of [] \<Rightarrow> [[x]] | seg # segs \<Rightarrow> (x # seg) # segs))"

definition under_excluded :: "ustr \<Rightarrow> bool" where
  "under_excluded f = (filter (\<lambda>seg. seg \<in> set EX_D) (butlast (split_on 47 f)) \<noteq> [])"

text \<open>The text a file holds after a patch pass over it, computed from the world before the pass.\<close>

definition patched_text :: "ucd \<Rightarrow> HighPatcher \<Rightarrow> PT list \<Rightarrow> world \<Rightarrow> ustr \<Rightarrow> ustr" where
  "patched_text U self patches w fp =
     (case read_text w fp of
        Inl e \<Rightarrow> []
      | Inr c \<Rightarrow> (case apply_content U self c patches of Inl e \<Rightarrow> c | Inr c' \<Rightarrow> c'))"

text \<open>Small filesystems for concrete runs.\<close>

definition one_file_world :: "ustr \<Rightarrow> world" where
  "one_file_world txt =
     \<lparr> nodes = [u ''r/device.c'' \<mapsto> File \<lparr>ftext = txt, readable = True, writable = True\<rparr>],
       globr = (\<lambda>p. if p = u ''r/**/device.c'' then [u ''r/device.c''] else []),
       writes = [], logged = [] \<rparr>"

definition two_file_world :: world where
  "two_file_world =
     \<lparr> nodes = [u ''r/a/device.c'' \<mapsto>
                  File \<lparr>ftext = u ''adapter_id.vendor_id = 0x10DE;'', readable = False, writable = True\<rparr>,
                u ''r/b/device.c'' \<mapsto>
                  File \<lparr>ftext = u ''adapter_id.vendor_id = 0x10DE;'', readable = True, writable = True\<rparr>],
       globr = (\<lambda>p. if p = u ''r/**/device.c'' then [u ''r/a/device.c'', u ''r/b/device.c''] else []),
       writes = [], logged = [] \<rparr>"

definition contest_world :: world where
  "contest_world =
     \<lparr> nodes = Map.empty,
       globr = (\<lambda>p. if p = u ''proj/**/device.c''
                     then [u ''proj/contests/device.c'', u ''proj/tests/device.c'', u ''proj/lib/device.c'']
                     else []),
       writes = [], logged = [] \<rparr>"

section \<open>Statements between semicolons\<close>

text \<open>
  Every pattern of the tables ends at the first semicolon after its equals sign, so
  \<^verbatim>\<open>re.sub\<close> works on each stretch of text between two semicolons by itself. \<open>hit\<close> is the
  match of a rule at the start of such a stretch (the semicolon that ends it is known to
  follow) and gives group 1; \<open>chunk_sub\<close> is the scan of one stretch: the first hit, from
  the left, has its value replaced, which uses up the stretch.
\<close>

definition hit :: "ucd \<Rightarrow> bool \<Rightarrow> ustr \<Rightarrow> uchar option \<Rightarrow> ustr \<Rightarrow> ustr option" where
  "hit U g name p c =
     (let r1 = drop (length name) c;
          r2 = dropWhile (is_space U) r1
      in if (if g then boundary U p c else True) \<and> prefix name c \<and> r2 \<noteq> [] \<and> hd r2 = EQS \<and>
            tl r2 \<noteq> []
         then Some (name @ takeWhile (is_space U) r1 @ EQS # lead U (tl r2))
         else None)"

fun chunk_sub :: "ucd \<Rightarrow> arule \<Rightarrow> uchar option \<Rightarrow> ustr \<Rightarrow> ustr" where
  "chunk_sub U (g, name, v) p [] = []"
| "chunk_sub U (g, name, v) p (x # xs) =
     (case hit U g name p (x # xs) of
        Some c1 \<Rightarrow> c1 @ v
      | None \<Rightarrow> x # chunk_sub U (g, name, v) (Some x) xs)"

definition chunk_rules :: "ucd \<Rightarrow> arule list \<Rightarrow> ustr \<Rightarrow> ustr" where
  "chunk_rules U rs c = foldl (\<lambda>c r. chunk_sub U r None c) c rs"

text \<open>
  What the idempotence argument needs of a rule: its name is not empty and has no
  whitespace, equals sign or semicolon in it; its value is not empty, does not begin with
  whitespace and has no equals sign or semicolon in it.
\<close>

definition wf_rule :: "ucd \<Rightarrow> arule \<Rightarrow> bool" where
  "wf_rule U r =
     (case r of (g, name, v) \<Rightarrow>
        name \<noteq> [] \<and> list_all (\<lambda>x. \<not> is_space U x \<and> x \<noteq> EQS \<and> x \<noteq> SEMI) name \<and>
        v \<noteq> [] \<and> \<not> is_space U (hd v) \<and> list_all (\<lambda>x. x \<noteq> EQS \<and> x \<noteq> SEMI) v)"

text \<open>
  Two facts about the tables, both decidable by looking at them: every rule is plain (its
  name is made of printable ASCII characters other than space, \<^verbatim>\<open>=\<close> and \<^verbatim>\<open>;\<close>, its value
  begins with such a character and has no \<^verbatim>\<open>=\<close> or \<^verbatim>\<open>;\<close>), and no name is the end of
  another name.
\<close>

definition plain_rule :: "arule \<Rightarrow> bool" where
  "plain_rule r =
     (case r of (g, name, v) \<Rightarrow>
        name \<noteq> [] \<and> list_all (\<lambda>x. 32 < x \<and> x < 127 \<and> x \<noteq> EQS \<and> x \<noteq> SEMI) name \<and>
        v \<noteq> [] \<and> 32 < hd v \<and> hd v < 127 \<and> list_all (\<lambda>x. x \<noteq> EQS \<and> x \<noteq> SEMI) v)"

fun names_apart :: "ustr list \<Rightarrow> bool" where
  "names_apart [] = True"
| "names_apart (n # ns) = (list_all (\<lambda>m. \<not> suffix n m \<and> \<not> suffix m n) ns \<and> names_apart ns)"

definition rule_name :: "arule \<Rightarrow> ustr" where
  "rule_name r = fst (snd r)"

section \<open>The matcher on an assignment pattern\<close>


lemma first_some_None: "(\<And>x. x \<in> set xs \<Longrightarrow> f x = None) \<Longrightarrow> first_some f xs = None"
  by (induction xs) auto

lemma first_some_top:
  assumes "a \<le> k" "k \<le> n" "f k = Some y" "\<And>j. k < j \<Longrightarrow> j \<le> n \<Longrightarrow> f j = None"
  shows "first_some f (rev [a ..< Suc n]) = Some y"
  using assms
proof (induction n)
  case 0
  then show ?case by simp
next
  case (Suc n)
  show ?case
  proof (cases "k = Suc n")
    case True
    with Suc.prems show ?thesis by simp
  next
    case False
    with Suc.prems have kn: "k \<le> n" by simp
    have "f (Suc n) = None" using Suc.prems(4) [of "Suc n"] kn by simp
    moreover have "first_some f (rev [a ..< Suc n]) = Some y"
      using Suc.IH [OF Suc.prems(1) kn Suc.prems(3)] Suc.prems(4) by simp
    ultimately show ?thesis using Suc.prems(1) kn by simp
  qed
qed

lemma first_some_all_None:
  assumes "\<And>j. a \<le> j \<Longrightarrow> j \<le> n \<Longrightarrow> f j = None"
  shows "first_some f (rev [a ..< Suc n]) = None"
  by (rule first_some_None) (use assms in auto)

lemma advance_0 [simp]: "advance p s 0 = (p, s)"
  by (simp add: advance_def)

lemma snd_advance [simp]: "snd (advance p s k) = drop k s"
  by (simp add: advance_def)

lemma rmatch_lits:
  "rmatch U (map (\<lambda>c. Atom (Lit c) One) name @ rx) p s os cs =
     (if prefix name s
      then rmatch U rx (if name = [] then p else Some (last name)) (drop (length name) s) os cs
      else None)"
proof (induction name arbitrary: p s)
  case Nil
  then show ?case by simp
next
  case (Cons c name)
  show ?case
  proof (cases s)
    case Nil
    then show ?thesis by simp
  next
    case (Cons x xs)
    then show ?thesis using Cons.IH [of "Some x" xs] by auto
  qed
qed

lemma not_space_EQS [simp]: "\<not> is_space U EQS"
  by (simp add: is_space_def)

lemma not_space_SEMI [simp]: "\<not> is_space U SEMI"
  by (simp add: is_space_def)

lemma run_Space: "run U Space s = length (takeWhile (is_space U) s)"
proof -
  have "cls_ok U Space = is_space U" by (rule ext) simp
  then show ?thesis by (simp add: run_def)
qed

lemma run_NotLit: "run U (NotLit c) s = length (takeWhile (\<lambda>x. x \<noteq> c) s)"
proof -
  have "cls_ok U (NotLit c) = (\<lambda>x. x \<noteq> c)" by (rule ext) simp
  then show ?thesis by (simp add: run_def)
qed

lemma drop_in_takeWhile:
  assumes "k < length (takeWhile P s)"
  shows "drop k s = s ! k # drop (Suc k) s" "P (s ! k)"
proof -
  have "k < length s" using assms length_takeWhile_le [of P s] by simp
  then show "drop k s = s ! k # drop (Suc k) s" by (simp add: Cons_nth_drop_Suc)
  show "P (s ! k)" using assms by (metis nth_mem set_takeWhileD takeWhile_nth)
qed

lemma rmatch_ws_eq:
  "rmatch U (Atom Space Star # Atom (Lit EQS) One # rx) p s os cs =
     (case dropWhile (is_space U) s of
        [] \<Rightarrow> None
      | e # r \<Rightarrow> if e = EQS then rmatch U rx (Some EQS) r os cs else None)"
proof -
  let ?W = "length (takeWhile (is_space U) s)"
  let ?f = "\<lambda>k. rmatch U (Atom (Lit EQS) One # rx) (fst (advance p s k)) (snd (advance p s k)) os cs"
  have lower: "?f j = None" if "j < ?W" for j
    using drop_in_takeWhile [OF that] by auto
  have dW: "drop ?W s = dropWhile (is_space U) s"
    by (simp add: dropWhile_eq_drop)
  have top: "?f ?W = (case dropWhile (is_space U) s of
        [] \<Rightarrow> None
      | e # r \<Rightarrow> if e = EQS then rmatch U rx (Some EQS) r os cs else None)"
  proof (cases "dropWhile (is_space U) s")
    case Nil
    show ?thesis unfolding snd_advance dW Nil by simp
  next
    case (Cons e r)
    show ?thesis unfolding snd_advance dW Cons by simp
  qed
  show ?thesis
  proof (cases "?f ?W")
    case None
    have "first_some ?f (rev [0 ..< Suc ?W]) = None"
    proof (rule first_some_all_None)
      fix j assume "0 \<le> j" "j \<le> ?W"
      then show "?f j = None" using lower [of j] None by (cases "j = ?W") auto
    qed
    then show ?thesis using None top by (simp add: run_Space)
  next
    case (Some y)
    have "first_some ?f (rev [0 ..< Suc ?W]) = Some y"
      by (rule first_some_top [where k = ?W]) (use Some in auto)
    then show ?thesis using Some top by (simp add: run_Space)
  qed
qed



lemma takeWhile_drop_le:
  "k \<le> length (takeWhile P s) \<Longrightarrow> takeWhile P (drop k s) = drop k (takeWhile P s)"
proof (induction s arbitrary: k)
  case Nil
  then show ?case by simp
next
  case (Cons x xs)
  then show ?case by (cases k) (auto split: if_splits)
qed

lemma dropWhile_drop_le:
  "k \<le> length (takeWhile P s) \<Longrightarrow> dropWhile P (drop k s) = dropWhile P s"
proof (induction s arbitrary: k)
  case Nil
  then show ?case by simp
next
  case (Cons x xs)
  then show ?case by (cases k) (auto split: if_splits)
qed

lemma take_takeWhile_le:
  "k \<le> length (takeWhile P s) \<Longrightarrow> take k (takeWhile P s) = take k s"
proof (induction s arbitrary: k)
  case Nil
  then show ?case by simp
next
  case (Cons x xs)
  then show ?case by (cases k) (auto split: if_splits)
qed

lemma takeWhile_space_semi:
  "takeWhile (is_space U) (takeWhile (\<lambda>x. x \<noteq> SEMI) s) = takeWhile (is_space U) s"
  by (induction s) auto

lemma lead_all_space: "dropWhile (is_space U) T = [] \<Longrightarrow> lead U T = butlast T"
  unfolding lead_def by (rule if_P)

lemma lead_some_text: "dropWhile (is_space U) T \<noteq> [] \<Longrightarrow> lead U T = takeWhile (is_space U) T"
  unfolding lead_def by (rule if_not_P)

lemma lead_props:
  assumes "T \<noteq> []"
  shows "length (lead U T) < length T"
    and "length (lead U T) \<le> length (takeWhile (is_space U) T)"
    and "\<And>j. length (lead U T) < j \<Longrightarrow> j \<le> length (takeWhile (is_space U) T) \<Longrightarrow> length T \<le> j"
    and "take (length (lead U T)) T = lead U T"
proof -
  have len: "length T = length (takeWhile (is_space U) T) + length (dropWhile (is_space U) T)"
    by (metis length_append takeWhile_dropWhile_id)
  show "length (lead U T) < length T"
  proof (cases "dropWhile (is_space U) T = []")
    case True
    show ?thesis unfolding lead_all_space [OF True] using assms by simp
  next
    case False
    then have "0 < length (dropWhile (is_space U) T)" by (metis length_greater_0_conv)
    then show ?thesis unfolding lead_some_text [OF False] using len by linarith
  qed
  show "length (lead U T) \<le> length (takeWhile (is_space U) T)"
  proof (cases "dropWhile (is_space U) T = []")
    case True
    then have "length (dropWhile (is_space U) T) = 0" by (simp only: list.size)
    then have "length (takeWhile (is_space U) T) = length T" using len by linarith
    then show ?thesis unfolding lead_all_space [OF True] by simp
  next
    case False
    show ?thesis unfolding lead_some_text [OF False] by simp
  qed
  show "length T \<le> j" if "length (lead U T) < j" "j \<le> length (takeWhile (is_space U) T)" for j
  proof (cases "dropWhile (is_space U) T = []")
    case True
    have "length (butlast T) < j" using that(1) unfolding lead_all_space [OF True] .
    then show ?thesis by simp
  next
    case False
    have "length (takeWhile (is_space U) T) < j" using that(1) unfolding lead_some_text [OF False] .
    then show ?thesis using that(2) by simp
  qed
  show "take (length (lead U T)) T = lead U T"
  proof (cases "dropWhile (is_space U) T = []")
    case True
    show ?thesis unfolding lead_all_space [OF True] by (simp add: butlast_conv_take)
  next
    case False
    show ?thesis unfolding lead_some_text [OF False] by (simp add: takeWhile_eq_take [symmetric])
  qed
qed

lemma rmatch_value:
  assumes "g \<Longrightarrow> os 2 = Some s"
  shows "rmatch U (Atom (NotLit SEMI) Plus # (if g then [Close 2] else []) @ [Atom (Lit SEMI) One]) p s os cs =
     (if takeWhile (\<lambda>x. x \<noteq> SEMI) s \<noteq> [] \<and> dropWhile (\<lambda>x. x \<noteq> SEMI) s \<noteq> []
      then Some ((Some SEMI, tl (dropWhile (\<lambda>x. x \<noteq> SEMI) s)),
                 if g then cs(2 \<mapsto> takeWhile (\<lambda>x. x \<noteq> SEMI) s) else cs)
      else None)"
proof -
  let ?T = "takeWhile (\<lambda>x. x \<noteq> SEMI) s"
  let ?R = "dropWhile (\<lambda>x. x \<noteq> SEMI) s"
  let ?n = "length ?T"
  let ?rx = "(if g then [Close 2] else []) @ [Atom (Lit SEMI) One]"
  let ?f = "\<lambda>k. rmatch U ?rx (fst (advance p s k)) (snd (advance p s k)) os cs"
  have lower: "?f j = None" if "j < ?n" for j
    using drop_in_takeWhile [OF that] assms by (cases g) auto
  have dn: "drop ?n s = ?R" by (simp add: dropWhile_eq_drop)
  have tn: "take (length s - length ?R) s = ?T"
  proof -
    have "length s = length ?T + length ?R" by (metis length_append takeWhile_dropWhile_id)
    then show ?thesis by (simp add: takeWhile_eq_take [symmetric])
  qed
  have top: "?f ?n = (case ?R of [] \<Rightarrow> None
                      | x # xs \<Rightarrow> Some ((Some SEMI, xs), if g then cs(2 \<mapsto> ?T) else cs))"
  proof (cases ?R)
    case Nil
    show ?thesis unfolding snd_advance dn using assms by (cases g) (simp_all add: Nil)
  next
    case (Cons x xs)
    have "x = SEMI" using Cons by (metis (mono_tags, lifting) hd_dropWhile list.distinct(1) list.sel(1))
    then show ?thesis unfolding snd_advance dn using assms tn Cons by (cases g) (simp_all add: Cons)
  qed
  have unf: "rmatch U (Atom (NotLit SEMI) Plus # ?rx) p s os cs = first_some ?f (rev [1 ..< Suc ?n])"
    by (simp add: run_NotLit)
  show ?thesis
  proof (cases "?T \<noteq> [] \<and> ?R \<noteq> []")
    case True
    then obtain x xs where R: "?R = x # xs" by (cases ?R) auto
    have "first_some ?f (rev [1 ..< Suc ?n]) = Some ((Some SEMI, xs), if g then cs(2 \<mapsto> ?T) else cs)"
    proof (rule first_some_top [where k = ?n])
      show "1 \<le> ?n" using True by (simp add: Suc_le_eq)
      show "?f ?n = Some ((Some SEMI, xs), if g then cs(2 \<mapsto> ?T) else cs)"
        using top R by simp
    qed auto
    then show ?thesis using True R unf by simp
  next
    case False
    have "first_some ?f (rev [1 ..< Suc ?n]) = None"
    proof (rule first_some_all_None)
      fix j assume j: "1 \<le> j" "j \<le> ?n"
      show "?f j = None"
      proof (cases "j = ?n")
        case True
        then have "?T \<noteq> []" using j by auto
        then have "?R = []" using False by blast
        then show ?thesis using top True by (simp del: dropWhile_eq_Nil_conv)
      next
        case False
        then show ?thesis using lower [of j] j by simp
      qed
    qed
    then have "rmatch U (Atom (NotLit SEMI) Plus # ?rx) p s os cs = None"
      by (simp only: unf)
    moreover have "(if ?T \<noteq> [] \<and> ?R \<noteq> []
      then Some ((Some SEMI, tl ?R), if g then cs(2 \<mapsto> ?T) else cs) else None) = None"
      using False by (rule if_not_P)
    ultimately show ?thesis by (simp only:)
  qed
qed


lemma rmatch_close_value:
  assumes os1: "os 1 = Some (pre @ s)" and kT: "k \<le> length (takeWhile (\<lambda>x. x \<noteq> SEMI) s)"
  shows "rmatch U (Close 1 # (if g then [Open 2] else []) @
            Atom (NotLit SEMI) Plus # (if g then [Close 2] else []) @ [Atom (Lit SEMI) One]) q (drop k s) os cs =
     (if k < length (takeWhile (\<lambda>x. x \<noteq> SEMI) s) \<and> dropWhile (\<lambda>x. x \<noteq> SEMI) s \<noteq> []
      then Some ((Some SEMI, tl (dropWhile (\<lambda>x. x \<noteq> SEMI) s)),
                 if g then cs(1 \<mapsto> pre @ take k s, 2 \<mapsto> drop k (takeWhile (\<lambda>x. x \<noteq> SEMI) s))
                 else cs(1 \<mapsto> pre @ take k s))
      else None)"
proof -
  let ?T = "takeWhile (\<lambda>x. x \<noteq> SEMI) s"
  let ?R = "dropWhile (\<lambda>x. x \<noteq> SEMI) s"
  let ?tail = "Atom (NotLit SEMI) Plus # (if g then [Close 2] else []) @ [Atom (Lit SEMI) One]"
  have ks: "k \<le> length s" using kT length_takeWhile_le [of "\<lambda>x. x \<noteq> SEMI" s] by simp
  have T: "takeWhile (\<lambda>x. x \<noteq> SEMI) (drop k s) = drop k ?T" by (rule takeWhile_drop_le [OF kT])
  have R: "dropWhile (\<lambda>x. x \<noteq> SEMI) (drop k s) = ?R" by (rule dropWhile_drop_le [OF kT])
  have tk: "take (length (pre @ s) - length (drop k s)) (pre @ s) = pre @ take k s"
    using ks by simp
  have dk: "(drop k ?T \<noteq> []) = (k < length ?T)" by (simp add: not_le)
  have c1: "rmatch U (Close 1 # X) q (drop k s) os cs =
            rmatch U X q (drop k s) os (cs(1 \<mapsto> pre @ take k s))" for X
    by (simp only: rmatch.simps os1 option.case tk)
  show ?thesis
  proof (cases g)
    case True
    have "rmatch U (Close 1 # (if g then [Open 2] else []) @ ?tail) q (drop k s) os cs =
          rmatch U ?tail q (drop k s) (os(2 \<mapsto> drop k s)) (cs(1 \<mapsto> pre @ take k s))"
      unfolding c1 using True by (simp only: if_True append_Cons append_Nil rmatch.simps)
    also have "\<dots> = (if drop k ?T \<noteq> [] \<and> ?R \<noteq> []
        then Some ((Some SEMI, tl ?R),
               if g then (cs(1 \<mapsto> pre @ take k s))(2 \<mapsto> drop k ?T) else cs(1 \<mapsto> pre @ take k s))
        else None)"
      by (subst rmatch_value) (simp_all only: T R fun_upd_same)
    finally show ?thesis unfolding dk .
  next
    case False
    have "rmatch U (Close 1 # (if g then [Open 2] else []) @ ?tail) q (drop k s) os cs =
          rmatch U ?tail q (drop k s) os (cs(1 \<mapsto> pre @ take k s))"
      unfolding c1 using False by (simp only: if_False append_Nil)
    also have "\<dots> = (if drop k ?T \<noteq> [] \<and> ?R \<noteq> []
        then Some ((Some SEMI, tl ?R),
               if g then (cs(1 \<mapsto> pre @ take k s))(2 \<mapsto> drop k ?T) else cs(1 \<mapsto> pre @ take k s))
        else None)"
    proof -
      have prov: "g \<Longrightarrow> os 2 = Some (drop k s)" using False by simp
      show ?thesis
        by (subst rmatch_value [of g os "drop k s", OF prov]) (simp_all only: T R)
    qed
    finally show ?thesis unfolding dk .
  qed
qed


lemma rmatch_ws_value:
  assumes os1: "os 1 = Some (pre @ s)"
  shows "rmatch U (Atom Space Star # Close 1 # (if g then [Open 2] else []) @
            Atom (NotLit SEMI) Plus # (if g then [Close 2] else []) @ [Atom (Lit SEMI) One]) p s os cs =
     (if takeWhile (\<lambda>x. x \<noteq> SEMI) s \<noteq> [] \<and> dropWhile (\<lambda>x. x \<noteq> SEMI) s \<noteq> []
      then Some ((Some SEMI, tl (dropWhile (\<lambda>x. x \<noteq> SEMI) s)),
                 if g then cs(1 \<mapsto> pre @ lead U (takeWhile (\<lambda>x. x \<noteq> SEMI) s),
                              2 \<mapsto> drop (length (lead U (takeWhile (\<lambda>x. x \<noteq> SEMI) s)))
                                     (takeWhile (\<lambda>x. x \<noteq> SEMI) s))
                 else cs(1 \<mapsto> pre @ lead U (takeWhile (\<lambda>x. x \<noteq> SEMI) s)))
      else None)"
proof -
  let ?T = "takeWhile (\<lambda>x. x \<noteq> SEMI) s"
  let ?R = "dropWhile (\<lambda>x. x \<noteq> SEMI) s"
  let ?W = "length (takeWhile (is_space U) s)"
  let ?rx = "Close 1 # (if g then [Open 2] else []) @
            Atom (NotLit SEMI) Plus # (if g then [Close 2] else []) @ [Atom (Lit SEMI) One]"
  let ?f = "\<lambda>k. rmatch U ?rx (fst (advance p s k)) (snd (advance p s k)) os cs"
  let ?caps = "\<lambda>k. if g then cs(1 \<mapsto> pre @ take k s, 2 \<mapsto> drop k ?T) else cs(1 \<mapsto> pre @ take k s)"
  have WT: "?W \<le> length ?T"
    using length_takeWhile_le [of "is_space U" ?T] by (simp only: takeWhile_space_semi)
  have fk: "?f k = (if k < length ?T \<and> ?R \<noteq> [] then Some ((Some SEMI, tl ?R), ?caps k) else None)"
    if "k \<le> ?W" for k
  proof -
    have kT: "k \<le> length ?T" using that WT by simp
    show ?thesis unfolding snd_advance
      by (rule rmatch_close_value [where os = os and pre = pre and s = s and k = k, OF os1 kT])
  qed
  have unf: "rmatch U (Atom Space Star # ?rx) p s os cs = first_some ?f (rev [0 ..< Suc ?W])"
    by (simp only: rmatch.simps run_Space)
  show ?thesis
  proof (cases "?T \<noteq> [] \<and> ?R \<noteq> []")
    case True
    let ?k = "length (lead U ?T)"
    have Tne: "?T \<noteq> []" using True by blast
    have l1: "?k < length ?T" by (rule lead_props(1) [OF Tne])
    have l2: "?k \<le> ?W" using lead_props(2) [OF Tne, of U] by (simp only: takeWhile_space_semi)
    have l3: "length ?T \<le> j" if "?k < j" "j \<le> ?W" for j
    proof -
      have "j \<le> length (takeWhile (is_space U) ?T)" using that(2) by (simp only: takeWhile_space_semi)
      then show ?thesis using lead_props(3) [OF Tne, of U j] that(1) by blast
    qed
    have l4: "take ?k ?T = lead U ?T" by (rule lead_props(4) [OF Tne])
    have tks: "take ?k s = lead U ?T"
    proof -
      have "take ?k ?T = take ?k s"
        using l1 by (intro take_takeWhile_le) simp
      then show ?thesis using l4 by simp
    qed
    have "first_some ?f (rev [0 ..< Suc ?W]) = Some ((Some SEMI, tl ?R), ?caps ?k)"
    proof (rule first_some_top [where k = ?k])
      show "0 \<le> ?k" by simp
      show "?k \<le> ?W" by (rule l2)
      show "?f ?k = Some ((Some SEMI, tl ?R), ?caps ?k)"
        using fk [OF l2] l1 True by (simp only: if_True simp_thms)
      show "?f j = None" if "?k < j" "j \<le> ?W" for j
      proof -
        have "\<not> j < length ?T" using l3 [OF that] by simp
        then show ?thesis using fk [OF that(2)] by (simp only: if_False simp_thms)
      qed
    qed
    then have "rmatch U (Atom Space Star # ?rx) p s os cs = Some ((Some SEMI, tl ?R), ?caps ?k)"
      by (simp only: unf)
    then show ?thesis using True by (simp only: tks if_True simp_thms)
  next
    case False
    have "first_some ?f (rev [0 ..< Suc ?W]) = None"
    proof (rule first_some_all_None)
      fix j assume "0 \<le> j" "j \<le> ?W"
      then have "?f j = (if j < length ?T \<and> ?R \<noteq> [] then Some ((Some SEMI, tl ?R), ?caps j) else None)"
        using fk [of j] by blast
      moreover have "\<not> (j < length ?T \<and> ?R \<noteq> [])" using False by auto
      ultimately show "?f j = None" by (simp only: if_False)
    qed
    then have "rmatch U (Atom Space Star # ?rx) p s os cs = None"
      by (simp only: unf)
    then show ?thesis using False by (simp only: if_False)
  qed
qed



lemma rmatch_asgn:
  "rmatch U (asgn_rx g name) p s Map.empty Map.empty =
     (case asgn_at U g name p s of
        None \<Rightarrow> None
      | Some (c1, c2, rest) \<Rightarrow>
          Some ((Some SEMI, rest), if g then [1 \<mapsto> c1, 2 \<mapsto> c2] else [1 \<mapsto> c1]))"
proof -
  let ?r1 = "drop (length name) s"
  let ?r2 = "dropWhile (is_space U) ?r1"
  let ?T = "takeWhile (\<lambda>x. x \<noteq> SEMI) (tl ?r2)"
  let ?R = "dropWhile (\<lambda>x. x \<noteq> SEMI) (tl ?r2)"
  let ?os = "[1 \<mapsto> s] :: nat \<rightharpoonup> ustr"
  let ?val = "Atom Space Star # Close 1 # (if g then [Open 2] else []) @
            Atom (NotLit SEMI) Plus # (if g then [Close 2] else []) @ [Atom (Lit SEMI) One]"
  let ?mid = "Atom Space Star # Atom (Lit EQS) One # ?val"
  let ?lits = "map (\<lambda>c. Atom (Lit c) One) name @ ?mid"
  let ?q = "if name = [] then p else Some (last name)"
  have step1: "rmatch U (asgn_rx g name) p s Map.empty Map.empty =
     (if (if g then boundary U p s else True) then rmatch U ?lits p s ?os Map.empty else None)"
    by (cases g) (simp_all add: asgn_rx_def)
  have step2: "rmatch U ?lits p s ?os Map.empty =
     (if prefix name s then rmatch U ?mid ?q ?r1 ?os Map.empty else None)"
    by (rule rmatch_lits)
  have step3: "rmatch U ?mid ?q ?r1 ?os Map.empty =
     (case ?r2 of [] \<Rightarrow> None
      | e # r \<Rightarrow> if e = EQS then rmatch U ?val (Some EQS) r ?os Map.empty else None)"
    by (rule rmatch_ws_eq)
  have step4: "rmatch U ?val (Some EQS) (tl ?r2) ?os Map.empty =
     (if ?T \<noteq> [] \<and> ?R \<noteq> []
      then Some ((Some SEMI, tl ?R),
                 if g then [1 \<mapsto> (name @ takeWhile (is_space U) ?r1 @ [EQS]) @ lead U ?T,
                            2 \<mapsto> drop (length (lead U ?T)) ?T]
                 else [1 \<mapsto> (name @ takeWhile (is_space U) ?r1 @ [EQS]) @ lead U ?T])
      else None)"
    if pre: "prefix name s" and r2: "?r2 \<noteq> []" "hd ?r2 = EQS"
  proof -
    have "s = name @ ?r1" using pre by (metis append_eq_conv_conj prefix_def)
    also have "?r1 = takeWhile (is_space U) ?r1 @ ?r2" by simp
    also have "?r2 = EQS # tl ?r2" using r2 by (metis list.collapse)
    finally have "?os 1 = Some ((name @ takeWhile (is_space U) ?r1 @ [EQS]) @ tl ?r2)" by simp
    then show ?thesis by (rule rmatch_ws_value)
  qed
  show ?thesis
  proof (cases "(if g then boundary U p s else True) \<and> prefix name s \<and> ?r2 \<noteq> [] \<and> hd ?r2 = EQS")
    case True
    then obtain r where r: "?r2 = EQS # r" by (cases ?r2) auto
    from True have b: "(if g then boundary U p s else True)" and pre: "prefix name s"
      by blast+
    have "rmatch U (asgn_rx g name) p s Map.empty Map.empty =
          rmatch U ?val (Some EQS) (tl ?r2) ?os Map.empty"
      by (simp only: step1 step2 step3 if_P [OF b] pre r if_True list.case list.sel simp_thms)
    also note step4
    finally show ?thesis using True by (simp add: asgn_at_def Let_def del: dropWhile_eq_Nil_conv takeWhile_eq_Nil_iff)
  next
    case False
    have "rmatch U (asgn_rx g name) p s Map.empty Map.empty = None"
    proof (cases "(if g then boundary U p s else True) \<and> prefix name s")
      case True
      with False have "?r2 = [] \<or> hd ?r2 \<noteq> EQS" by blast
      then have "(case ?r2 of [] \<Rightarrow> None
          | e # r \<Rightarrow> if e = EQS then rmatch U ?val (Some EQS) r ?os Map.empty else None) = None"
      proof (cases ?r2)
        case Nil
        show ?thesis unfolding Nil by simp
      next
        case (Cons e r)
        assume "?r2 = [] \<or> hd ?r2 \<noteq> EQS"
        then have "e \<noteq> EQS" unfolding Cons by simp
        then show ?thesis unfolding Cons by simp
      qed
      moreover from True have b: "(if g then boundary U p s else True)" and pre: "prefix name s"
        by blast+
      ultimately show ?thesis by (simp only: step1 step2 step3 if_P [OF b] pre if_True simp_thms)
    next
      case False
      then have "\<not> (if g then boundary U p s else True) \<or> \<not> prefix name s" by blast
      then show ?thesis
      proof
        assume nb: "\<not> (if g then boundary U p s else True)"
        show ?thesis by (simp only: step1 if_not_P [OF nb])
      next
        assume np: "\<not> prefix name s"
        show ?thesis
        proof (cases "(if g then boundary U p s else True)")
          case True
          show ?thesis by (simp only: step1 step2 if_P [OF True] if_not_P [OF np])
        next
          case False
          show ?thesis by (simp only: step1 if_not_P [OF False])
        qed
      qed
    qed
    moreover have "asgn_at U g name p s = None"
    proof -
      have "\<not> ((if g then boundary U p s else True) \<and> prefix name s \<and> ?r2 \<noteq> [] \<and>
                hd ?r2 = EQS \<and> ?T \<noteq> [] \<and> ?R \<noteq> [])"
        using False by blast
      then show ?thesis unfolding asgn_at_def Let_def by (rule if_not_P)
    qed
    ultimately show ?thesis by simp
  qed
qed

subsection \<open>Compiling the patterns and templates of the rules\<close>


lemma special_props:
  "c \<in> set special_chars \<Longrightarrow> c \<noteq> 98 \<and> c \<noteq> 115 \<and> \<not> ascii_alnum c"
  by (auto simp: special_chars_def ascii_alnum_def)

lemma nonspecial_props:
  "c \<notin> set special_chars \<Longrightarrow>
     c \<noteq> 40 \<and> c \<noteq> 41 \<and> c \<noteq> 92 \<and> c \<noteq> 91 \<and> c \<notin> set meta_chars \<and> \<not> is_rep_char c"
  by (auto simp: special_chars_def meta_chars_def is_rep_char_def)

lemma quant_One: "s \<noteq> [] \<Longrightarrow> \<not> is_rep_char (hd s) \<Longrightarrow> quant s = Some (One, s)"
  by (cases s) (auto simp: is_rep_char_def)

lemma re_escape_Cons:
  "re_escape (c # v) = (if c \<in> set special_chars then [BSL, c] else [c]) @ re_escape v"
  by (simp add: re_escape_def)

lemma re_escape_Nil [simp]: "re_escape [] = []"
  by (simp add: re_escape_def)

lemma hd_escape:
  assumes "rest \<noteq> []" "\<not> is_rep_char (hd rest)"
  shows "re_escape v @ rest \<noteq> []" "\<not> is_rep_char (hd (re_escape v @ rest))"
proof -
  show "re_escape v @ rest \<noteq> []" using assms by simp
  show "\<not> is_rep_char (hd (re_escape v @ rest))"
  proof (cases v)
    case Nil
    then show ?thesis using assms by simp
  next
    case (Cons c v')
    show ?thesis
    proof (cases "c \<in> set special_chars")
      case True
      then show ?thesis unfolding Cons re_escape_Cons by (simp add: is_rep_char_def)
    next
      case False
      then show ?thesis unfolding Cons re_escape_Cons using nonspecial_props [OF False] by simp
    qed
  qed
qed

lemma compile_escape:
  assumes "rest \<noteq> []" "\<not> is_rep_char (hd rest)"
  shows "compile_at n st (re_escape v @ rest) =
         map_option ((@) (map (\<lambda>c. Atom (Lit c) One) v)) (compile_at n st rest)"
proof (induction v)
  case Nil
  show ?case by (simp add: option.map_ident)
next
  case (Cons c v)
  let ?X = "re_escape v @ rest"
  have X: "?X \<noteq> []" "\<not> is_rep_char (hd ?X)" using hd_escape [OF assms] by blast+
  have q: "quant ?X = Some (One, ?X)" by (rule quant_One [OF X])
  have step: "compile_at n st (re_escape (c # v) @ rest) =
              map_option ((#) (Atom (Lit c) One)) (compile_at n st ?X)"
  proof (cases "c \<in> set special_chars")
    case True
    have a: "atom (BSL # c # ?X) = Some (Lit c, ?X)"
      using special_props [OF True] by simp
    show ?thesis unfolding re_escape_Cons using True special_props [OF True] a q by simp
  next
    case False
    have a: "atom (c # ?X) = Some (Lit c, ?X)"
      using nonspecial_props [OF False] by simp
    show ?thesis unfolding re_escape_Cons using False nonspecial_props [OF False] a q by simp
  qed
  show ?case unfolding step Cons.IH by (simp add: option.map_comp comp_def)
qed

lemma compile_tail:
  "compile_at n [k] [92, 115, 42, 61, 92, 115, 42, 41, 40, 91, 94, 59, 93, 43, 41, 59] =
     Some [Atom Space Star, Atom (Lit EQS) One, Atom Space Star, Close k, Open n,
           Atom (NotLit SEMI) Plus, Close n, Atom (Lit SEMI) One]"
  by (simp add: is_rep_char_def ascii_alnum_def meta_chars_def)

lemma mk_asgn_chars:
  "mk_asgn var = 40 # 92 # 98 # re_escape var @
                 [92, 115, 42, 61, 92, 115, 42, 41, 40, 91, 94, 59, 93, 43, 41, 59]"
  by (simp add: mk_asgn_def u_def)

lemma compile_mk_asgn: "re_compile (mk_asgn var) = Some (asgn_rx True var)"
proof -
  let ?rest = "[92, 115, 42, 61, 92, 115, 42, 41, 40, 91, 94, 59, 93, 43, 41, 59] :: ustr"
  let ?Y = "re_escape var @ ?rest"
  have r: "?rest \<noteq> []" "\<not> is_rep_char (hd ?rest)" by (simp_all add: is_rep_char_def)
  have Y: "?Y \<noteq> []" "\<not> is_rep_char (hd ?Y)" using hd_escape [OF r] by blast+
  have a: "compile_at 1 [] (40 # 92 # 98 # ?Y) =
           map_option ((#) (Open 1)) (compile_at (Suc 1) [1] (92 # 98 # ?Y))"
    by simp
  have b: "compile_at (Suc 1) [1] (92 # 98 # ?Y) = map_option ((#) Bnd) (compile_at (Suc 1) [1] ?Y)"
    using Y by simp
  have c: "compile_at (Suc 1) [1] ?Y =
      map_option ((@) (map (\<lambda>c. Atom (Lit c) One) var)) (compile_at (Suc 1) [1] ?rest)"
    by (rule compile_escape [OF r])
  show ?thesis unfolding re_compile_def mk_asgn_chars a b c compile_tail
    by (simp add: asgn_rx_def)
qed

lemma parse_template_plain: "BSL \<notin> set t \<Longrightarrow> parse_template t = Some (map TLit t)"
  by (induction t) auto

lemma parse_template_g1:
  assumes "BSL \<notin> set t"
  shows "parse_template (92 # 103 # 60 # 49 # 62 # t) = Some (TGrp 1 # map TLit t)"
  using parse_template_plain [OF assms] by (simp add: is_digit_def digits_val_def)

lemma trefs_plain [simp]: "trefs (map TLit t) = []"
  by (induction t) auto

lemma expand_plain [simp]: "expand (map TLit t) cs = t"
  by (induction t) auto

lemma trefs_append [simp]: "trefs (a @ b) = trefs a @ trefs b"
  by (induction a rule: trefs.induct) auto

lemma ngroups_asgn_rx: "ngroups (asgn_rx g name) = (if g then 2 else 1)"
proof -
  have "filter (\<lambda>i. case i of Open n \<Rightarrow> True | _ \<Rightarrow> False) (map (\<lambda>c. Atom (Lit c) One) name) = []"
    by (induction name) auto
  then show ?thesis by (cases g) (simp_all add: ngroups_def asgn_rx_def)
qed

subsection \<open>The parts of a match\<close>

lemma asgn_at_SomeD:
  assumes "asgn_at U g name p s = Some (c1, c2, rest)"
  shows "s = c1 @ c2 @ SEMI # rest" and "c2 \<noteq> []" and "SEMI \<notin> set c2"
    and "prefix name c1"
proof -
  let ?r1 = "drop (length name) s"
  let ?r2 = "dropWhile (is_space U) ?r1"
  let ?T = "takeWhile (\<lambda>x. x \<noteq> SEMI) (tl ?r2)"
  let ?R = "dropWhile (\<lambda>x. x \<noteq> SEMI) (tl ?r2)"
  have cond: "(if g then boundary U p s else True) \<and> prefix name s \<and> ?r2 \<noteq> [] \<and> hd ?r2 = EQS \<and>
              ?T \<noteq> [] \<and> ?R \<noteq> []"
    using assms unfolding asgn_at_def Let_def by (meson option.distinct(1))
  have "asgn_at U g name p s =
        Some (name @ takeWhile (is_space U) ?r1 @ EQS # lead U ?T, drop (length (lead U ?T)) ?T, tl ?R)"
    unfolding asgn_at_def Let_def by (rule if_P [OF cond])
  with assms have res: "c1 = name @ takeWhile (is_space U) ?r1 @ EQS # lead U ?T"
      "c2 = drop (length (lead U ?T)) ?T" "rest = tl ?R"
    by simp_all
  have Tne: "?T \<noteq> []" using cond by blast
  have hdR: "hd ?R = SEMI" using cond by (metis (mono_tags, lifting) hd_dropWhile)
  have s1: "s = name @ ?r1" using cond by (metis append_eq_conv_conj prefix_def)
  have s2: "?r1 = takeWhile (is_space U) ?r1 @ ?r2" by simp
  have s3: "?r2 = EQS # tl ?r2" using cond by (metis list.collapse)
  have s4: "tl ?r2 = ?T @ ?R" by simp
  have s5: "?R = SEMI # tl ?R" using cond hdR by (metis list.collapse)
  have s6: "?T = lead U ?T @ drop (length (lead U ?T)) ?T"
    using lead_props(4) [OF Tne, of U] by (metis append_take_drop_id)
  have "s = name @ takeWhile (is_space U) ?r1 @ EQS # ?T @ SEMI # tl ?R"
    using s1 s2 s3 s4 s5 by (metis append_Cons append_Nil)
  then show "s = c1 @ c2 @ SEMI # rest" unfolding res using s6 by (metis append_Cons append_assoc)
  show "c2 \<noteq> []" unfolding res using lead_props(1) [OF Tne, of U] by simp
  have "set c2 \<subseteq> set ?T" unfolding res by (rule set_drop_subset)
  moreover have "SEMI \<notin> set ?T" using set_takeWhileD by fastforce
  ultimately show "SEMI \<notin> set c2" by blast
  show "prefix name c1" unfolding res by simp
qed

lemma asgn_at_shorter:
  assumes "asgn_at U g name p s = Some (c1, c2, rest)"
  shows "length rest < length s"
proof -
  have "length s = length (c1 @ c2 @ SEMI # rest)" using asgn_at_SomeD(1) [OF assms] by simp
  then show ?thesis by simp
qed

lemma sub_scan_asgn:
  "sub_scan U (asgn_rx g name) (TGrp 1 # map TLit t) p s =
     (case asgn_at U g name p s of
        None \<Rightarrow> (case s of [] \<Rightarrow> [] | x # xs \<Rightarrow> x # sub_scan U (asgn_rx g name) (TGrp 1 # map TLit t) (Some x) xs)
      | Some (c1, c2, rest) \<Rightarrow>
          c1 @ t @ sub_scan U (asgn_rx g name) (TGrp 1 # map TLit t) (Some SEMI) rest)"
proof (cases "asgn_at U g name p s")
  case None
  then show ?thesis by (subst sub_scan.simps) (simp add: rmatch_asgn)
next
  case (Some r)
  obtain c1 c2 rest where r: "r = (c1, c2, rest)" by (cases r)
  have sh: "length rest < length s" using asgn_at_shorter Some r by blast
  show ?thesis using Some r sh by (subst sub_scan.simps) (simp add: rmatch_asgn)
qed

lemma asgn_at_no_semi:
  assumes "SEMI \<notin> set s"
  shows "asgn_at U g name p s = None"
proof (cases "asgn_at U g name p s")
  case None
  then show ?thesis .
next
  case (Some r)
  obtain c1 c2 rest where r: "r = (c1, c2, rest)" by (cases r)
  have "s = c1 @ c2 @ SEMI # rest" using asgn_at_SomeD(1) Some r by blast
  then have "SEMI \<in> set s" by (metis in_set_conv_decomp append_assoc)
  then show ?thesis using assms by blast
qed

lemma sub_scan_no_semi:
  "SEMI \<notin> set s \<Longrightarrow> sub_scan U (asgn_rx g name) (TGrp 1 # map TLit t) p s = s"
proof (induction s arbitrary: p)
  case Nil
  then show ?case by (subst sub_scan_asgn) (simp add: asgn_at_no_semi)
next
  case (Cons x xs)
  then show ?case by (subst sub_scan_asgn) (simp add: asgn_at_no_semi)
qed

lemma g1_chars: "g1 vs = 92 # 103 # 60 # 49 # 62 # u vs"
  by (simp add: g1_def u_def)

lemma parse_g1:
  assumes "BSL \<notin> set v" "u vs = v @ [SEMI]"
  shows "parse_template (g1 vs) = Some (TGrp 1 # map TLit (v @ [SEMI]))"
proof -
  have "BSL \<notin> set (u vs)" using assms by simp
  then show ?thesis unfolding g1_chars assms(2) [symmetric] by (rule parse_template_g1)
qed

lemma describes_asgn:
  assumes "BSL \<notin> set v" "u vs = v @ [SEMI]"
  shows "describes (True, name, v) (mk_asgn name, g1 vs, ident)"
  unfolding describes_def using parse_g1 [OF assms] compile_mk_asgn by simp

lemma compile_ssm:
  "re_compile (u ''(SharedSystemMemory'' @ BSL # u ''s*='' @ BSL # u ''s*)[^;]+;'') =
     Some (asgn_rx False (u ''SharedSystemMemory''))"
  by code_simp

lemma describes_ssm:
  assumes "BSL \<notin> set v" "u vs = v @ [SEMI]"
  shows "describes (False, u ''SharedSystemMemory'', v)
           (u ''(SharedSystemMemory'' @ BSL # u ''s*='' @ BSL # u ''s*)[^;]+;'', g1 vs, ident)"
  unfolding describes_def using parse_g1 [OF assms] compile_ssm by simp

lemma described_gpu: "list_all2 describes gpu_rules GPU_P"
  unfolding gpu_rules_def GPU_P_def
  by (intro list_all2_Cons [THEN iffD2] conjI describes_asgn describes_ssm list_all2_Nil [THEN iffD2])
     (simp_all add: u_def)

lemma described_more:
  "list_all2 describes more_rules (SM_P @ WV_P @ RB_P @ SO_P @ MS_P @ RT_P @ SF_P @ TX_P @ RN_P)"
  unfolding more_rules_def SM_P_def WV_P_def RB_P_def SO_P_def MS_P_def RT_P_def SF_P_def TX_P_def
    RN_P_def append_Cons append_Nil
  by (intro list_all2_Cons [THEN iffD2] conjI describes_asgn list_all2_Nil [THEN iffD2])
     (simp_all add: u_def)

lemma described_high:
  "list_all2 describes (gpu_rules @ more_rules)
     (GPU_P @ SM_P @ WV_P @ RB_P @ SO_P @ MS_P @ RT_P @ SF_P @ TX_P @ RN_P)"
  using described_gpu described_more by (rule list_all2_appendI)


lemma re_sub_described:
  assumes "describes (g, name, v) (pattern, repl, ident)"
  shows "re_sub U pattern repl s = Inr (rule_sub U (g, name, v) s)"
  using assms by (simp add: describes_def re_sub_def rule_sub_def ngroups_asgn_rx)

lemma apply_content_described:
  assumes "list_all2 describes rs pts"
  shows "apply_content U self s pts = Inr (rules_sub U rs s)"
  using assms
proof (induction rs pts arbitrary: s rule: list_all2_induct)
  case Nil
  then show ?case by (simp add: rules_sub_def)
next
  case (Cons r rs pt pts)
  obtain g name v where r: "r = (g, name, v)" by (cases r)
  obtain pattern repl ident where pt: "pt = (pattern, repl, ident)" by (cases pt)
  have "re_sub U pattern repl s = Inr (rule_sub U r s)"
    using Cons.hyps(1) unfolding r pt by (rule re_sub_described)
  then show ?case using Cons.IH [of "rule_sub U r s"] by (simp add: pt rules_sub_def)
qed

lemma patches_described:
  "list_all2 describes (if profile self = u ''high'' then gpu_rules @ more_rules else gpu_rules)
     (patches_of self)"
  using described_high described_gpu by (simp add: patches_of_def)

lemma rule_sub_no_semi:
  assumes "SEMI \<notin> set s"
  shows "rule_sub U r s = s"
proof -
  obtain g name v where r: "r = (g, name, v)" by (cases r)
  show ?thesis unfolding r rule_sub_def prod.case by (rule sub_scan_no_semi [OF assms])
qed

lemma rules_sub_no_semi: "SEMI \<notin> set s \<Longrightarrow> rules_sub U rs s = s"
  by (induction rs) (simp_all add: rules_sub_def rule_sub_no_semi)

subsection \<open>The loop over the files\<close>

lemma write_text_effect:
  assumes "write_text w fp txt = Inr w1"
  shows "writes w1 = writes w @ [(fp, txt)]" and "logged w1 = logged w"
    and "f \<noteq> fp \<Longrightarrow> nodes w1 f = nodes w f"
  using assms by (auto simp: write_text_def split: option.splits node.splits if_splits)

lemma read_text_nodes: "nodes w1 f = nodes w f \<Longrightarrow> read_text w1 f = read_text w f"
  by (simp add: read_text_def)

lemma patched_text_nodes:
  assumes "nodes w1 f = nodes w f"
  shows "patched_text U self ps w1 f = patched_text U self ps w f"
  unfolding patched_text_def read_text_nodes [OF assms] ..

lemma patch_loop_writes:
  assumes "distinct fps" "patch_loop U self ps fps w = (Inr (), w')"
  shows "writes w' = writes w @ map (\<lambda>fp. (fp, patched_text U self ps w fp)) fps \<and>
         logged w' = logged w @ map (\<lambda>fp. u ''Patched: '' @ fp) fps \<and>
         (\<forall>f. f \<notin> set fps \<longrightarrow> nodes w' f = nodes w f)"
  using assms
proof (induction fps arbitrary: w)
  case Nil
  then show ?case by simp
next
  case (Cons fp fps)
  from Cons.prems(2) obtain c where c: "read_text w fp = Inr c"
    by (cases "read_text w fp") auto
  from Cons.prems(2) c obtain c' where c': "apply_content U self c ps = Inr c'"
    by (cases "apply_content U self c ps") auto
  from Cons.prems(2) c c' obtain w1 where w1: "write_text w fp c' = Inr w1"
    by (cases "write_text w fp c'") auto
  let ?w2 = "w1\<lparr>logged := logged w1 @ [u ''Patched: '' @ fp]\<rparr>"
  have loop: "patch_loop U self ps fps ?w2 = (Inr (), w')"
    using Cons.prems(2) c c' w1 by simp
  have d: "distinct fps" and nin: "fp \<notin> set fps" using Cons.prems(1) by auto
  note IH = Cons.IH [OF d loop]
  have same: "nodes ?w2 f = nodes w f" if "f \<noteq> fp" for f
    using write_text_effect(3) [OF w1 that] by simp
  have pt: "map (\<lambda>f. (f, patched_text U self ps ?w2 f)) fps =
            map (\<lambda>f. (f, patched_text U self ps w f)) fps"
  proof (rule map_cong [OF refl])
    fix f assume "f \<in> set fps"
    then have "f \<noteq> fp" using nin by blast
    then show "(f, patched_text U self ps ?w2 f) = (f, patched_text U self ps w f)"
      using patched_text_nodes [OF same] by simp
  qed
  have p0: "patched_text U self ps w fp = c'" by (simp add: patched_text_def c c')
  have "writes w' = writes w @ map (\<lambda>fp. (fp, patched_text U self ps w fp)) (fp # fps)"
    using IH pt write_text_effect(1) [OF w1] p0 by simp
  moreover have "logged w' = logged w @ map (\<lambda>fp. u ''Patched: '' @ fp) (fp # fps)"
    using IH write_text_effect(2) [OF w1] by simp
  moreover have "\<forall>f. f \<notin> set (fp # fps) \<longrightarrow> nodes w' f = nodes w f"
    using IH same by auto
  ultimately show ?case by blast
qed

lemma patch_loop_append:
  "patch_loop U self ps (xs @ ys) w =
     (case patch_loop U self ps xs w of
        (Inl e, w1) \<Rightarrow> (Inl e, w1)
      | (Inr _, w1) \<Rightarrow> patch_loop U self ps ys w1)"
proof (induction xs arbitrary: w)
  case Nil
  show ?case by simp
next
  case (Cons x xs)
  show ?case using Cons.IH by (simp split: sum.splits)
qed

subsection \<open>Segments and substrings\<close>

lemma contains_iff: "contains ex f \<longleftrightarrow> (\<exists>a b. f = a @ ex @ b)"
proof (induction f)
  case Nil
  show ?case by simp
next
  case (Cons c cs)
  show ?case
  proof
    assume "contains ex (c # cs)"
    then consider "prefix ex (c # cs)" | "contains ex cs" by auto
    then show "\<exists>a b. c # cs = a @ ex @ b"
    proof cases
      case 1
      then obtain b where "c # cs = ex @ b" by (auto simp: prefix_def)
      then have "c # cs = [] @ ex @ b" by simp
      then show ?thesis by blast
    next
      case 2
      then obtain a b where "cs = a @ ex @ b" using Cons.IH by blast
      then have "c # cs = (c # a) @ ex @ b" by simp
      then show ?thesis by blast
    qed
  next
    assume "\<exists>a b. c # cs = a @ ex @ b"
    then obtain a b where ab: "c # cs = a @ ex @ b" by blast
    show "contains ex (c # cs)"
    proof (cases a)
      case Nil
      then have "prefix ex (c # cs)" using ab by (simp add: prefix_def)
      then show ?thesis by simp
    next
      case (Cons x a')
      then have "cs = a' @ ex @ b" using ab by simp
      then have "contains ex cs" using Cons.IH by blast
      then show ?thesis by simp
    qed
  qed
qed

lemma split_on_nonempty: "split_on c f \<noteq> []"
  by (induction f) (auto split: list.splits)

lemma split_on_hd_prefix: "prefix (hd (split_on c f)) f"
  by (induction f) (auto split: list.splits)

lemma split_on_segment:
  "seg \<in> set (split_on c f) \<Longrightarrow> \<exists>a b. f = a @ seg @ b"
proof (induction f arbitrary: seg)
  case Nil
  then show ?case by simp
next
  case (Cons x xs)
  show ?case
  proof (cases "x = c")
    case True
    then have "seg = [] \<or> seg \<in> set (split_on c xs)" using Cons.prems by simp
    then show ?thesis
    proof
      assume "seg = []"
      then have "x # xs = [] @ seg @ (x # xs)" by simp
      then show ?thesis by blast
    next
      assume "seg \<in> set (split_on c xs)"
      then obtain a b where "xs = a @ seg @ b" using Cons.IH by blast
      then have "x # xs = (x # a) @ seg @ b" by simp
      then show ?thesis by blast
    qed
  next
    case False
    obtain s1 ss where sp: "split_on c xs = s1 # ss"
      using split_on_nonempty [of c xs] by (cases "split_on c xs") auto
    have "seg = x # s1 \<or> seg \<in> set ss" using Cons.prems False sp by simp
    then show ?thesis
    proof
      assume seg: "seg = x # s1"
      have "prefix s1 xs" using split_on_hd_prefix [of c xs] sp by simp
      then obtain b where "xs = s1 @ b" by (auto simp: prefix_def)
      then have "x # xs = [] @ seg @ b" using seg by simp
      then show ?thesis by blast
    next
      assume "seg \<in> set ss"
      then have "seg \<in> set (split_on c xs)" using sp by simp
      then obtain a b where "xs = a @ seg @ b" using Cons.IH by blast
      then have "x # xs = (x # a) @ seg @ b" by simp
      then show ?thesis by blast
    qed
  qed
qed

lemma under_excluded_contains:
  assumes "under_excluded f"
  shows "\<exists>ex \<in> set EX_D. contains ex f"
proof -
  from assms obtain seg where seg: "seg \<in> set (butlast (split_on 47 f))" "seg \<in> set EX_D"
    unfolding under_excluded_def by (metis (mono_tags, lifting) filter_False)
  then have "seg \<in> set (split_on 47 f)" by (meson in_set_butlastD)
  then have "contains seg f" using split_on_segment contains_iff by blast
  then show ?thesis using seg(2) by blast
qed

lemma find_files_set:
  "set (find_files self w src pat) =
     {f \<in> set (globr w (path_join src [u ''**'', pat])). \<forall>ex \<in> set EX_D. \<not> contains ex f}"
  by (auto simp: find_files_def Let_def filter_empty_conv)

text \<open>What the filter of \<^verbatim>\<open>_find_files\<close> does, for any glob result.\<close>

lemma find_files_filter:
  "set (find_files self w src pat) =
     {f \<in> set (globr w (path_join src [u ''**'', pat])). \<forall>ex \<in> set EX_D. \<not> (\<exists>a b. f = a @ ex @ b)} \<and>
   (under_excluded f \<longrightarrow> f \<notin> set (find_files self w src pat))"
proof -
  have a: "set (find_files self w src pat) =
     {f \<in> set (globr w (path_join src [u ''**'', pat])). \<forall>ex \<in> set EX_D. \<not> (\<exists>a b. f = a @ ex @ b)}"
    unfolding find_files_set contains_iff ..
  have "f \<notin> set (find_files self w src pat)" if "under_excluded f"
    using under_excluded_contains [OF that] unfolding find_files_set by blast
  with a show ?thesis by blast
qed

section \<open>Substitution works statement by statement\<close>

lemma not_word_SEMI [simp]: "\<not> is_word U SEMI"
  by (simp add: is_word_def ascii_alnum_def)

lemma boundary_chunk: "boundary U p (c @ SEMI # rest) = boundary U p c"
  by (cases c) (simp_all add: boundary_def)

lemma boundary_after_semi: "boundary U (Some SEMI) s = boundary U None s"
  by (simp add: boundary_def)

lemma prefix_chunk:
  assumes "SEMI \<notin> set name"
  shows "prefix name (c @ SEMI # rest) = prefix name c"
proof
  assume "prefix name (c @ SEMI # rest)"
  then consider "prefix name c" | us where "name = c @ us" "prefix us (SEMI # rest)"
    unfolding prefix_append by blast
  then show "prefix name c"
  proof cases
    case 1
    then show ?thesis .
  next
    case 2
    have "us = []"
    proof (cases us)
      case Nil
      then show ?thesis .
    next
      case (Cons y ys)
      then have "y = SEMI" using 2(2) by simp
      then have "SEMI \<in> set name" using 2(1) Cons by simp
      then show ?thesis using assms by blast
    qed
    then show ?thesis using 2(1) by simp
  qed
next
  assume "prefix name c"
  then show "prefix name (c @ SEMI # rest)" by (rule prefix_prefix)
qed

lemma takeWhile_all_then:
  assumes "SEMI \<notin> set xs"
  shows "takeWhile (\<lambda>x. x \<noteq> SEMI) (xs @ SEMI # ys) = xs"
    and "dropWhile (\<lambda>x. x \<noteq> SEMI) (xs @ SEMI # ys) = SEMI # ys"
  using assms by (induction xs) auto

lemma asgn_at_chunk:
  assumes c: "SEMI \<notin> set c" and n: "SEMI \<notin> set name"
  shows "asgn_at U g name p (c @ SEMI # rest) =
     (case hit U g name p c of
        None \<Rightarrow> None
      | Some c1 \<Rightarrow> Some (c1, drop (length (lead U (tl (dropWhile (is_space U) (drop (length name) c)))))
                                (tl (dropWhile (is_space U) (drop (length name) c))), rest))"
proof (cases "prefix name c")
  case False
  then have "\<not> prefix name (c @ SEMI # rest)" using prefix_chunk [OF n] by simp
  then have "asgn_at U g name p (c @ SEMI # rest) = None"
    unfolding asgn_at_def Let_def by (intro if_not_P) blast
  moreover have "hit U g name p c = None"
    unfolding hit_def Let_def using False by (intro if_not_P) blast
  ultimately show ?thesis by simp
next
  case True
  let ?s = "c @ SEMI # rest"
  let ?r1 = "drop (length name) c"
  let ?r2 = "dropWhile (is_space U) ?r1"
  have len: "length name \<le> length c" using True by (rule prefix_length_le)
  have r1: "drop (length name) ?s = ?r1 @ SEMI # rest" using len by simp
  have r2: "dropWhile (is_space U) (?r1 @ SEMI # rest) = ?r2 @ SEMI # rest"
    by (rule dropWhile_append3) simp
  have tw: "takeWhile (is_space U) (?r1 @ SEMI # rest) = takeWhile (is_space U) ?r1"
    by (rule takeWhile_tail) simp
  have pre: "prefix name ?s" using True by (rule prefix_prefix)
  show ?thesis
  proof (cases "?r2 \<noteq> [] \<and> hd ?r2 = EQS")
    case False
    have "hd (?r2 @ SEMI # rest) \<noteq> EQS"
    proof (cases ?r2)
      case Nil
      show ?thesis unfolding Nil by simp
    next
      case (Cons e r)
      have "e \<noteq> EQS" using False unfolding Cons by simp
      then show ?thesis unfolding Cons by simp
    qed
    then have "\<not> (?r2 @ SEMI # rest \<noteq> [] \<and> hd (?r2 @ SEMI # rest) = EQS)"
      by blast
    then have "asgn_at U g name p ?s = None"
      unfolding asgn_at_def Let_def r1 r2 by (intro if_not_P) blast
    moreover have "hit U g name p c = None"
      unfolding hit_def Let_def using False by (intro if_not_P) blast
    ultimately show ?thesis by simp
  next
    case r2ok: True
    then have tl2: "tl (?r2 @ SEMI # rest) = tl ?r2 @ SEMI # rest" by (cases ?r2) auto
    have "set (tl ?r2) \<subseteq> set c"
      by (meson list.set_sel(2) r2ok set_drop_subset set_dropWhileD subset_code(1))
    then have ns: "SEMI \<notin> set (tl ?r2)" using c by blast
    note TR = takeWhile_all_then [OF ns, of rest]
    have hd2: "hd (?r2 @ SEMI # rest) = EQS" "?r2 @ SEMI # rest \<noteq> []" using r2ok by auto
    show ?thesis
    proof (cases "(if g then boundary U p c else True) \<and> tl ?r2 \<noteq> []")
      case True
      have cond: "(if g then boundary U p ?s else True) \<and> prefix name ?s \<and>
                  ?r2 @ SEMI # rest \<noteq> [] \<and> hd (?r2 @ SEMI # rest) = EQS \<and>
                  tl ?r2 \<noteq> [] \<and> SEMI # rest \<noteq> []"
        using True pre hd2 by (simp add: boundary_chunk)
      have a: "asgn_at U g name p ?s =
               Some (name @ takeWhile (is_space U) ?r1 @ EQS # lead U (tl ?r2),
                     drop (length (lead U (tl ?r2))) (tl ?r2), rest)"
        unfolding asgn_at_def Let_def r1 r2 tl2 TR tw using cond by simp
      have condh: "(if g then boundary U p c else True) \<and> prefix name c \<and> ?r2 \<noteq> [] \<and>
                   hd ?r2 = EQS \<and> tl ?r2 \<noteq> []"
        using True \<open>prefix name c\<close> r2ok by blast
      have h: "hit U g name p c = Some (name @ takeWhile (is_space U) ?r1 @ EQS # lead U (tl ?r2))"
        unfolding hit_def Let_def by (rule if_P [OF condh])
      show ?thesis unfolding a h by simp
    next
      case False
      then have "\<not> ((if g then boundary U p ?s else True) \<and> prefix name ?s \<and>
                  ?r2 @ SEMI # rest \<noteq> [] \<and> hd (?r2 @ SEMI # rest) = EQS \<and>
                  tl ?r2 \<noteq> [] \<and> SEMI # rest \<noteq> [])"
        by (auto simp: boundary_chunk)
      then have "asgn_at U g name p ?s = None"
        unfolding asgn_at_def Let_def r1 r2 tl2 TR by (rule if_not_P)
      moreover have "hit U g name p c = None"
        unfolding hit_def Let_def using False by (intro if_not_P) blast
      ultimately show ?thesis by simp
    qed
  qed
qed

lemma hit_Nil [simp]: "hit U g name p [] = None"
  by (simp add: hit_def)

lemma sub_scan_chunk:
  assumes n: "SEMI \<notin> set name"
  shows "SEMI \<notin> set c \<Longrightarrow>
     sub_scan U (asgn_rx g name) (TGrp 1 # map TLit (v @ [SEMI])) p (c @ SEMI # rest) =
       chunk_sub U (g, name, v) p c @
       SEMI # sub_scan U (asgn_rx g name) (TGrp 1 # map TLit (v @ [SEMI])) (Some SEMI) rest"
proof (induction c arbitrary: p)
  case Nil
  have "asgn_at U g name p ([] @ SEMI # rest) = None"
    by (subst asgn_at_chunk [OF _ n]) simp_all
  then show ?case by (subst sub_scan_asgn) simp
next
  case (Cons x xs)
  have xs: "SEMI \<notin> set xs" using Cons.prems by simp
  show ?case
  proof (cases "hit U g name p (x # xs)")
    case None
    have "asgn_at U g name p ((x # xs) @ SEMI # rest) = None"
      by (subst asgn_at_chunk [OF Cons.prems n]) (simp add: None)
    then show ?thesis using Cons.IH [OF xs] None by (subst sub_scan_asgn) simp
  next
    case (Some c1)
    have "\<exists>c2. asgn_at U g name p ((x # xs) @ SEMI # rest) = Some (c1, c2, rest)"
      by (subst asgn_at_chunk [OF Cons.prems n]) (simp add: Some)
    then obtain c2 where "asgn_at U g name p ((x # xs) @ SEMI # rest) = Some (c1, c2, rest)" ..
    then show ?thesis using Some by (subst sub_scan_asgn) simp
  qed
qed

lemma asgn_at_after_semi: "asgn_at U g name (Some SEMI) s = asgn_at U g name None s"
  by (simp add: asgn_at_def boundary_after_semi)

lemma sub_scan_after_semi:
  "sub_scan U (asgn_rx g name) (TGrp 1 # map TLit t) (Some SEMI) s =
   sub_scan U (asgn_rx g name) (TGrp 1 # map TLit t) None s"
  by (subst sub_scan_asgn, subst (2) sub_scan_asgn) (simp add: asgn_at_after_semi)

lemma rule_sub_chunk:
  assumes "SEMI \<notin> set c" "SEMI \<notin> set name"
  shows "rule_sub U (g, name, v) (c @ SEMI # rest) =
         chunk_sub U (g, name, v) None c @ SEMI # rule_sub U (g, name, v) rest"
  unfolding rule_sub_def prod.case sub_scan_chunk [OF assms(2) assms(1)] sub_scan_after_semi ..

section \<open>One statement, one rule\<close>

lemma spaces_no_EQS: "\<forall>x\<in>set ws. is_space U x \<Longrightarrow> EQS \<notin> set ws"
  using not_space_EQS by blast

lemma takeWhile_spaces_then:
  assumes "\<forall>x\<in>set ws. is_space U x" "\<not> is_space U e"
  shows "takeWhile (is_space U) (ws @ e # t) = ws"
    and "dropWhile (is_space U) (ws @ e # t) = e # t"
  using assms by (induction ws) auto

lemma lead_spaces: "\<forall>x\<in>set (lead U t). is_space U x"
proof (cases "dropWhile (is_space U) t = []")
  case True
  then have "\<forall>x\<in>set t. is_space U x" by (simp only: dropWhile_eq_Nil_conv)
  then show ?thesis unfolding lead_all_space [OF True] by (meson in_set_butlastD)
next
  case False
  show ?thesis unfolding lead_some_text [OF False] by (meson set_takeWhileD)
qed

lemma lead_canon:
  assumes "\<forall>x\<in>set l. is_space U x" "v \<noteq> []" "\<not> is_space U (hd v)"
  shows "lead U (l @ v) = l"
proof -
  obtain e t where v: "v = e # t" using assms(2) by (cases v) auto
  have e: "\<not> is_space U e" using assms(3) v by simp
  have d: "dropWhile (is_space U) (l @ v) \<noteq> []"
    unfolding v takeWhile_spaces_then(2) [OF assms(1) e] by simp
  show ?thesis unfolding lead_some_text [OF d] unfolding v by (rule takeWhile_spaces_then(1) [OF assms(1) e])
qed

lemma boundary_same_start:
  assumes "a \<noteq> []"
  shows "boundary U p (a @ b) = boundary U p (a @ b')"
  using assms by (cases a) (simp_all add: boundary_def)

lemma hit_SomeD:
  assumes "hit U g name p c = Some c1"
  shows "\<exists>ws t. c = name @ ws @ EQS # t \<and> (\<forall>x\<in>set ws. is_space U x) \<and> t \<noteq> [] \<and>
                 c1 = name @ ws @ EQS # lead U t"
    and "g \<Longrightarrow> boundary U p c"
proof -
  let ?r1 = "drop (length name) c"
  let ?r2 = "dropWhile (is_space U) ?r1"
  have cond: "(if g then boundary U p c else True) \<and> prefix name c \<and> ?r2 \<noteq> [] \<and> hd ?r2 = EQS \<and>
              tl ?r2 \<noteq> []"
    using assms unfolding hit_def Let_def by (meson option.distinct(1))
  have "hit U g name p c = Some (name @ takeWhile (is_space U) ?r1 @ EQS # lead U (tl ?r2))"
    unfolding hit_def Let_def by (rule if_P [OF cond])
  with assms have c1: "c1 = name @ takeWhile (is_space U) ?r1 @ EQS # lead U (tl ?r2)" by simp
  have s1: "c = name @ ?r1" using cond by (metis append_eq_conv_conj prefix_def)
  have s2: "?r1 = takeWhile (is_space U) ?r1 @ ?r2" by simp
  have s3: "?r2 = EQS # tl ?r2" using cond by (metis list.collapse)
  have "c = name @ takeWhile (is_space U) ?r1 @ EQS # tl ?r2"
    using s1 s2 s3 by metis
  moreover have "\<forall>x\<in>set (takeWhile (is_space U) ?r1). is_space U x" by (meson set_takeWhileD)
  ultimately show "\<exists>ws t. c = name @ ws @ EQS # t \<and> (\<forall>x\<in>set ws. is_space U x) \<and> t \<noteq> [] \<and>
                 c1 = name @ ws @ EQS # lead U t"
    using c1 cond by blast
  show "boundary U p c" if g using cond that by simp
qed

lemma hit_SomeI:
  assumes c: "c = name @ ws @ EQS # t" and ws: "\<forall>x\<in>set ws. is_space U x" and t: "t \<noteq> []"
    and b: "g \<Longrightarrow> boundary U p c"
  shows "hit U g name p c = Some (name @ ws @ EQS # lead U t)"
proof -
  have r1: "drop (length name) c = ws @ EQS # t" unfolding c by simp
  have tw: "takeWhile (is_space U) (ws @ EQS # t) = ws"
    and dw: "dropWhile (is_space U) (ws @ EQS # t) = EQS # t"
    using takeWhile_spaces_then [OF ws not_space_EQS] by blast+
  have cond: "(if g then boundary U p c else True) \<and> prefix name c \<and>
              dropWhile (is_space U) (drop (length name) c) \<noteq> [] \<and>
              hd (dropWhile (is_space U) (drop (length name) c)) = EQS \<and>
              tl (dropWhile (is_space U) (drop (length name) c)) \<noteq> []"
    unfolding r1 dw using b t c by simp
  have "hit U g name p c =
        Some (name @ takeWhile (is_space U) (drop (length name) c) @
              EQS # lead U (tl (dropWhile (is_space U) (drop (length name) c))))"
    unfolding hit_def Let_def by (rule if_P [OF cond])
  then show ?thesis unfolding r1 tw dw by simp
qed

lemma chunk_sub_Cons_None:
  "hit U g name p (x # xs) = None \<Longrightarrow>
     chunk_sub U (g, name, v) p (x # xs) = x # chunk_sub U (g, name, v) (Some x) xs"
  by simp

lemma chunk_sub_Some:
  assumes "hit U g name p c = Some c1"
  shows "chunk_sub U (g, name, v) p c = c1 @ v"
proof (cases c)
  case Nil
  then show ?thesis using assms by simp
next
  case (Cons x xs)
  then show ?thesis using assms by simp
qed

lemma chunk_sub_shape:
  "chunk_sub U (g, name, v) q xs = xs \<or>
   (\<exists>A t l. xs = A @ EQS # t \<and> chunk_sub U (g, name, v) q xs = A @ EQS # l @ v \<and> t \<noteq> [] \<and>
            (\<forall>x\<in>set l. is_space U x))"
proof (induction xs arbitrary: q)
  case Nil
  show ?case by simp
next
  case (Cons x xs)
  show ?case
  proof (cases "hit U g name q (x # xs)")
    case None
    note cs = chunk_sub_Cons_None [OF None, of v]
    from Cons.IH [of "Some x"] show ?thesis
    proof
      assume "chunk_sub U (g, name, v) (Some x) xs = xs"
      then show ?thesis using cs by simp
    next
      assume "\<exists>A t l. xs = A @ EQS # t \<and> chunk_sub U (g, name, v) (Some x) xs = A @ EQS # l @ v \<and>
                t \<noteq> [] \<and> (\<forall>x\<in>set l. is_space U x)"
      then obtain A t l where a: "xs = A @ EQS # t"
        "chunk_sub U (g, name, v) (Some x) xs = A @ EQS # l @ v" "t \<noteq> []" "\<forall>x\<in>set l. is_space U x"
        by blast
      have "x # xs = (x # A) @ EQS # t" using a(1) by simp
      moreover have "chunk_sub U (g, name, v) q (x # xs) = (x # A) @ EQS # l @ v"
        using cs a(2) by simp
      ultimately show ?thesis using a(3,4) by blast
    qed
  next
    case (Some c1)
    from hit_SomeD(1) [OF Some] obtain ws t where w: "x # xs = name @ ws @ EQS # t"
      "\<forall>x\<in>set ws. is_space U x" "t \<noteq> []" "c1 = name @ ws @ EQS # lead U t"
      by blast
    have "x # xs = (name @ ws) @ EQS # t" using w(1) by simp
    moreover have "chunk_sub U (g, name, v) q (x # xs) = (name @ ws) @ EQS # lead U t @ v"
      using chunk_sub_Some [OF Some, of v] w(4) by simp
    ultimately show ?thesis using w(3) lead_spaces by blast
  qed
qed

lemma hit_transfer:
  assumes X: "X = A @ EQS # t" and Y: "Y = A @ EQS # lv" and t: "t \<noteq> []"
    and lv: "EQS \<notin> set lv" and n0: "EQS \<notin> set name0"
    and h: "hit U g0 name0 p Y = Some k"
  shows "\<exists>k'. hit U g0 name0 p X = Some k'"
proof -
  from hit_SomeD(1) [OF h] obtain ws0 t0 where w: "Y = name0 @ ws0 @ EQS # t0"
    "\<forall>x\<in>set ws0. is_space U x" "t0 \<noteq> []"
    by blast
  let ?P = "name0 @ ws0"
  have P: "EQS \<notin> set ?P" using n0 spaces_no_EQS [OF w(2)] by simp
  have eq: "?P @ EQS # t0 = A @ EQS # lv" using w(1) Y by simp
  have "\<exists>us. A = ?P @ us \<and> us @ EQS # lv = EQS # t0"
  proof -
    from eq consider us where "?P = A @ us" "us @ EQS # t0 = EQS # lv"
      | us where "?P @ us = A" "EQS # t0 = us @ EQS # lv"
      unfolding append_eq_append_conv2 by blast
    then show ?thesis
    proof cases
      case 1
      have "us = []"
      proof (cases us)
        case Nil
        then show ?thesis .
      next
        case (Cons e us')
        then have "e = EQS" using 1(2) by simp
        then have "EQS \<in> set ?P" unfolding 1(1) Cons by simp
        then show ?thesis using P by blast
      qed
      then show ?thesis using 1 by auto
    next
      case 2
      then show ?thesis by auto
    qed
  qed
  then obtain us where us: "A = ?P @ us" "us @ EQS # lv = EQS # t0" by blast
  have hd: "hd (us @ EQS # t) = EQS"
  proof (cases us)
    case Nil
    then show ?thesis by simp
  next
    case (Cons e us')
    then show ?thesis using us(2) by simp
  qed
  have tl: "tl (us @ EQS # t) \<noteq> []" using t by (cases us) auto
  have "us @ EQS # t = EQS # tl (us @ EQS # t)" using hd by (metis append_is_Nil_conv list.collapse list.distinct(1))
  then have Xs: "X = name0 @ ws0 @ EQS # tl (us @ EQS # t)" unfolding X us(1) by simp
  have bd: "boundary U p X" if g0
  proof -
    have "boundary U p Y" using hit_SomeD(2) [OF h that] .
    moreover have "boundary U p ((?P @ [EQS]) @ tl (us @ EQS # t)) = boundary U p ((?P @ [EQS]) @ t0)"
      by (rule boundary_same_start) simp
    ultimately show ?thesis unfolding Xs w(1) by simp
  qed
  show ?thesis using hit_SomeI [OF Xs w(2) tl bd] by blast
qed

lemma single_occurrence:
  "E \<notin> set A \<Longrightarrow> E \<notin> set B \<Longrightarrow> A @ E # B = A' @ E # B' \<Longrightarrow> A' = A"
proof (induction A arbitrary: A')
  case Nil
  show ?case
  proof (cases A')
    case Nil
    then show ?thesis by simp
  next
    case (Cons a as)
    then have "B = as @ E # B'" using Nil.prems(3) by simp
    then show ?thesis using Nil.prems(2) by simp
  qed
next
  case (Cons x A)
  show ?case
  proof (cases A')
    case Nil
    then have "x = E" using Cons.prems(3) by simp
    then show ?thesis using Cons.prems(1) by simp
  next
    case (Cons a as)
    then have "a = x" "A @ E # B = as @ E # B'" using Cons.prems(3) by simp_all
    moreover have "E \<notin> set A" using Cons.prems(1) by simp
    ultimately have "as = A" using Cons.IH Cons.prems(2) by blast
    then show ?thesis using Cons \<open>a = x\<close> by simp
  qed
qed

lemma strip_spaces:
  assumes eq: "X @ ws = Y @ ws'" and ws: "\<forall>x\<in>set ws. is_space U x" and ws': "\<forall>x\<in>set ws'. is_space U x"
    and X: "X \<noteq> []" "\<not> is_space U (last X)" and Y: "Y \<noteq> []" "\<not> is_space U (last Y)"
  shows "X = Y"
proof -
  from eq consider us where "X = Y @ us" "us @ ws = ws'" | us where "X @ us = Y" "ws = us @ ws'"
    unfolding append_eq_append_conv2 by blast
  then show ?thesis
  proof cases
    case 1
    have "us = []"
    proof (rule ccontr)
      assume ne: "us \<noteq> []"
      then have "last X = last us" using 1(1) by simp
      moreover have "last us \<in> set ws'" using ne 1(2) by (metis last_in_set Un_iff set_append)
      ultimately show False using X(2) ws' by simp
    qed
    then show ?thesis using 1(1) by simp
  next
    case 2
    have "us = []"
    proof (rule ccontr)
      assume ne: "us \<noteq> []"
      then have "last Y = last us" using 2(1) by auto
      moreover have "last us \<in> set ws" using ne 2(2) by (metis last_in_set Un_iff set_append)
      ultimately show False using Y(2) ws by simp
    qed
    then show ?thesis using 2(1) by simp
  qed
qed

lemma wf_ruleD:
  assumes "wf_rule U (g, name, v)"
  shows "name \<noteq> []" "\<forall>x\<in>set name. \<not> is_space U x" "EQS \<notin> set name" "SEMI \<notin> set name"
    "v \<noteq> []" "\<not> is_space U (hd v)" "EQS \<notin> set v" "SEMI \<notin> set v"
  using assms by (auto simp: wf_rule_def list_all_iff)

lemma no_foreign_hit:
  assumes r: "wf_rule U (g, name, v)" and r': "wf_rule U (g', name', v')"
    and ns: "\<not> suffix name' name"
    and Z: "Z = name @ ws @ EQS # l @ v" and ws: "\<forall>x\<in>set ws. is_space U x" and l: "\<forall>x\<in>set l. is_space U x"
    and ab: "Z = a @ b"
  shows "hit U g' name' q b = None"
proof (cases "hit U g' name' q b")
  case None
  then show ?thesis .
next
  case (Some k)
  from hit_SomeD(1) [OF Some] obtain ws' t' where w: "b = name' @ ws' @ EQS # t'"
    "\<forall>x\<in>set ws'. is_space U x"
    by blast
  note d = wf_ruleD [OF r] and d' = wf_ruleD [OF r']
  have A: "EQS \<notin> set (name @ ws)" using d(3) spaces_no_EQS [OF ws] by simp
  have B: "EQS \<notin> set (l @ v)" using d(7) spaces_no_EQS [OF l] by simp
  have "(name @ ws) @ EQS # (l @ v) = (a @ name' @ ws') @ EQS # t'"
    using Z ab w(1) by simp
  from single_occurrence [OF A B this] have "(a @ name') @ ws' = name @ ws" by simp
  moreover have "a @ name' \<noteq> []" "\<not> is_space U (last (a @ name'))"
    using d'(1,2) by simp_all
  moreover have "\<not> is_space U (last name)" using d(1,2) by simp
  ultimately have "a @ name' = name" using strip_spaces [OF _ w(2) ws] d(1) by blast
  then have "suffix name' name" by (metis suffixI)
  then show ?thesis using ns by blast
qed

lemma no_hit_fixed:
  "(\<And>a b q. Z = a @ b \<Longrightarrow> hit U g name q b = None) \<Longrightarrow> chunk_sub U (g, name, v) p Z = Z"
proof (induction Z arbitrary: p)
  case Nil
  show ?case by simp
next
  case (Cons x xs)
  have h: "hit U g name p (x # xs) = None" using Cons.prems [of "[]" "x # xs" p] by simp
  have "chunk_sub U (g, name, v) (Some x) xs = xs"
  proof (rule Cons.IH)
    fix a b q assume "xs = a @ b"
    then have "x # xs = (x # a) @ b" by simp
    then show "hit U g name q b = None" by (rule Cons.prems)
  qed
  then show ?case using chunk_sub_Cons_None [OF h, of v] by simp
qed

lemma canonical_fixed_by_other:
  assumes r: "wf_rule U (g, name, v)" and r': "wf_rule U (g', name', v')"
    and ns: "\<not> suffix name' name"
    and h: "hit U g name p c = Some c1"
  shows "chunk_sub U (g', name', v') q (c1 @ v) = c1 @ v"
proof -
  from hit_SomeD(1) [OF h] obtain ws t where w: "(\<forall>x\<in>set ws. is_space U x)"
    "c1 = name @ ws @ EQS # lead U t"
    by blast
  have Z: "c1 @ v = name @ ws @ EQS # lead U t @ v" using w(2) by simp
  show ?thesis
    by (rule no_hit_fixed) (rule no_foreign_hit [OF r r' ns Z w(1) lead_spaces])
qed

lemma hit_canonical:
  assumes r: "wf_rule U (g, name, v)" and h: "hit U g name p c = Some c1"
  shows "hit U g name p (c1 @ v) = Some c1"
proof -
  note d = wf_ruleD [OF r]
  from hit_SomeD(1) [OF h] obtain ws t where w: "c = name @ ws @ EQS # t"
    "\<forall>x\<in>set ws. is_space U x" "c1 = name @ ws @ EQS # lead U t"
    by blast
  have Z: "c1 @ v = name @ ws @ EQS # (lead U t @ v)" using w(3) by simp
  have ne: "lead U t @ v \<noteq> []" using d(5) by simp
  have b: "boundary U p (c1 @ v)" if g
  proof -
    have "boundary U p c" using hit_SomeD(2) [OF h that] .
    moreover have "boundary U p (name @ (ws @ EQS # (lead U t @ v))) = boundary U p (name @ (ws @ EQS # t))"
      by (rule boundary_same_start [OF d(1)])
    ultimately show ?thesis unfolding Z w(1) by simp
  qed
  have "hit U g name p (c1 @ v) = Some (name @ ws @ EQS # lead U (lead U t @ v))"
    by (rule hit_SomeI [OF Z w(2) ne b])
  then show ?thesis unfolding lead_canon [OF lead_spaces d(5) d(6)] w(3) .
qed

lemma hit_after_rewrite:
  assumes r: "wf_rule U (g, name, v)" and n0: "EQS \<notin> set name0"
    and h: "hit U g0 name0 p (x # chunk_sub U (g, name, v) (Some x) xs) = Some k"
  shows "\<exists>k'. hit U g0 name0 p (x # xs) = Some k'"
proof -
  note d = wf_ruleD [OF r]
  from chunk_sub_shape [of U g name v "Some x" xs] show ?thesis
  proof
    assume "chunk_sub U (g, name, v) (Some x) xs = xs"
    then show ?thesis using h by auto
  next
    assume "\<exists>A t l. xs = A @ EQS # t \<and> chunk_sub U (g, name, v) (Some x) xs = A @ EQS # l @ v \<and>
              t \<noteq> [] \<and> (\<forall>x\<in>set l. is_space U x)"
    then obtain A t l where a: "xs = A @ EQS # t"
      "chunk_sub U (g, name, v) (Some x) xs = A @ EQS # l @ v" "t \<noteq> []" "\<forall>x\<in>set l. is_space U x"
      by blast
    have X: "x # xs = (x # A) @ EQS # t" using a(1) by simp
    have Y: "x # chunk_sub U (g, name, v) (Some x) xs = (x # A) @ EQS # (l @ v)" using a(2) by simp
    have lv: "EQS \<notin> set (l @ v)" using d(7) spaces_no_EQS [OF a(4)] by simp
    show ?thesis by (rule hit_transfer [OF X Y a(3) lv n0 h])
  qed
qed

lemma chunk_sub_idem:
  assumes r: "wf_rule U (g, name, v)"
  shows "chunk_sub U (g, name, v) p (chunk_sub U (g, name, v) p c) = chunk_sub U (g, name, v) p c"
proof (induction c arbitrary: p)
  case Nil
  show ?case by simp
next
  case (Cons x xs)
  note d = wf_ruleD [OF r]
  show ?case
  proof (cases "hit U g name p (x # xs)")
    case (Some c1)
    have "chunk_sub U (g, name, v) p (c1 @ v) = c1 @ v"
      by (rule chunk_sub_Some [OF hit_canonical [OF r Some]])
    then show ?thesis unfolding chunk_sub_Some [OF Some] .
  next
    case None
    let ?y = "chunk_sub U (g, name, v) (Some x) xs"
    have "hit U g name p (x # ?y) = None"
    proof (cases "hit U g name p (x # ?y)")
      case None
      then show ?thesis .
    next
      case (Some k)
      from hit_after_rewrite [OF r d(3) Some] show ?thesis using \<open>hit U g name p (x # xs) = None\<close> by simp
    qed
    then have "chunk_sub U (g, name, v) p (x # ?y) = x # chunk_sub U (g, name, v) (Some x) ?y"
      by (rule chunk_sub_Cons_None)
    then show ?thesis unfolding chunk_sub_Cons_None [OF None] Cons.IH .
  qed
qed

lemma chunk_sub_keeps_fixed:
  assumes r: "wf_rule U (g, name, v)" and r': "wf_rule U (g', name', v')"
    and ns: "\<not> suffix name name'" "\<not> suffix name' name"
  shows "chunk_sub U (g, name, v) p x = x \<Longrightarrow>
         chunk_sub U (g, name, v) p (chunk_sub U (g', name', v') p x) = chunk_sub U (g', name', v') p x"
proof (induction x arbitrary: p)
  case Nil
  show ?case by simp
next
  case (Cons a xs)
  note d = wf_ruleD [OF r] and d' = wf_ruleD [OF r']
  show ?case
  proof (cases "hit U g' name' p (a # xs)")
    case (Some c1')
    show ?thesis unfolding chunk_sub_Some [OF Some]
      by (rule canonical_fixed_by_other [OF r' r ns(1) Some])
  next
    case None
    note cs' = chunk_sub_Cons_None [OF None, of v']
    show ?thesis
    proof (cases "hit U g name p (a # xs)")
      case (Some c1)
      have x: "a # xs = c1 @ v" using Cons.prems unfolding chunk_sub_Some [OF Some] by simp
      have "chunk_sub U (g', name', v') p (c1 @ v) = c1 @ v"
        by (rule canonical_fixed_by_other [OF r r' ns(2) Some])
      then have "chunk_sub U (g', name', v') p (a # xs) = a # xs" unfolding x .
      then show ?thesis using Cons.prems by simp
    next
      case hn: None
      note cs = chunk_sub_Cons_None [OF hn, of v]
      have fx: "chunk_sub U (g, name, v) (Some a) xs = xs" using Cons.prems unfolding cs by simp
      let ?y = "chunk_sub U (g', name', v') (Some a) xs"
      have "hit U g name p (a # ?y) = None"
      proof (cases "hit U g name p (a # ?y)")
        case None
        then show ?thesis .
      next
        case (Some k)
        from hit_after_rewrite [OF r' d(3) Some] show ?thesis using hn by simp
      qed
      then have "chunk_sub U (g, name, v) p (a # ?y) = a # chunk_sub U (g, name, v) (Some a) ?y"
        by (rule chunk_sub_Cons_None)
      then show ?thesis unfolding cs' using Cons.IH [OF fx] by simp
    qed
  qed
qed

section \<open>One statement, all rules\<close>

lemma plain_wf: "plain_rule r \<Longrightarrow> wf_rule U r"
  by (cases r) (auto simp: plain_rule_def wf_rule_def list_all_iff is_space_def)

lemma chunk_sub_no_semi:
  assumes r: "wf_rule U (g, name, v)" and c: "SEMI \<notin> set c"
  shows "SEMI \<notin> set (chunk_sub U (g, name, v) p c)"
proof -
  note d = wf_ruleD [OF r]
  from chunk_sub_shape [of U g name v p c] show ?thesis
  proof
    assume "chunk_sub U (g, name, v) p c = c"
    then show ?thesis using c by simp
  next
    assume "\<exists>A t l. c = A @ EQS # t \<and> chunk_sub U (g, name, v) p c = A @ EQS # l @ v \<and>
              t \<noteq> [] \<and> (\<forall>x\<in>set l. is_space U x)"
    then obtain A t l where a: "c = A @ EQS # t" "chunk_sub U (g, name, v) p c = A @ EQS # l @ v"
      "\<forall>x\<in>set l. is_space U x"
      by blast
    have "SEMI \<notin> set A" using c a(1) by simp
    moreover have "SEMI \<notin> set l" using a(3) not_space_SEMI by blast
    ultimately show ?thesis unfolding a(2) using d(8) by simp
  qed
qed

lemma chunk_rules_Cons: "chunk_rules U (r # rs) c = chunk_rules U rs (chunk_sub U r None c)"
  by (simp add: chunk_rules_def)

lemma chunk_rules_Nil [simp]: "chunk_rules U [] c = c"
  by (simp add: chunk_rules_def)

lemma rules_sub_Cons: "rules_sub U (r # rs) s = rules_sub U rs (rule_sub U r s)"
  by (simp add: rules_sub_def)

lemma rules_sub_Nil [simp]: "rules_sub U [] s = s"
  by (simp add: rules_sub_def)

lemma chunk_rules_no_semi:
  "\<forall>r\<in>set rs. wf_rule U r \<Longrightarrow> SEMI \<notin> set c \<Longrightarrow> SEMI \<notin> set (chunk_rules U rs c)"
proof (induction rs arbitrary: c)
  case Nil
  then show ?case by simp
next
  case (Cons r rs)
  obtain g name v where r: "r = (g, name, v)" by (cases r)
  have "SEMI \<notin> set (chunk_sub U r None c)"
    unfolding r using Cons.prems by (intro chunk_sub_no_semi) (simp_all add: r)
  then show ?case unfolding chunk_rules_Cons using Cons.IH Cons.prems(1) by simp
qed

lemma rules_sub_chunk:
  "\<forall>r\<in>set rs. wf_rule U r \<Longrightarrow> SEMI \<notin> set c \<Longrightarrow>
     rules_sub U rs (c @ SEMI # rest) = chunk_rules U rs c @ SEMI # rules_sub U rs rest"
proof (induction rs arbitrary: c rest)
  case Nil
  show ?case by simp
next
  case (Cons r rs)
  obtain g name v where r: "r = (g, name, v)" by (cases r)
  have wf: "wf_rule U (g, name, v)" using Cons.prems(1) r by simp
  have one: "rule_sub U r (c @ SEMI # rest) = chunk_sub U r None c @ SEMI # rule_sub U r rest"
    unfolding r by (rule rule_sub_chunk [OF Cons.prems(2) wf_ruleD(4) [OF wf]])
  have ns: "SEMI \<notin> set (chunk_sub U r None c)"
    unfolding r by (rule chunk_sub_no_semi [OF wf Cons.prems(2)])
  have rs: "\<forall>r\<in>set rs. wf_rule U r" using Cons.prems(1) by simp
  show ?case unfolding rules_sub_Cons chunk_rules_Cons one by (rule Cons.IH [OF rs ns])
qed

lemma rule_name_triple [simp]: "rule_name (g, name, v) = name"
  by (simp add: rule_name_def)

lemma names_apart_append:
  "names_apart (xs @ y # ys) \<Longrightarrow> x \<in> set xs \<Longrightarrow> \<not> suffix x y \<and> \<not> suffix y x"
  by (induction xs) (auto simp: list_all_iff)

lemma chunk_rules_fixed:
  "\<forall>r\<in>set rs. chunk_sub U r None y = y \<Longrightarrow> chunk_rules U rs y = y"
  by (induction rs) (simp_all add: chunk_rules_Cons)

lemma chunk_rules_all_fixed:
  assumes "\<forall>r\<in>set (done @ rs). wf_rule U r"
    and "names_apart (map rule_name (done @ rs))"
    and "\<forall>r\<in>set done. chunk_sub U r None c = c"
  shows "\<forall>r\<in>set (done @ rs). chunk_sub U r None (chunk_rules U rs c) = chunk_rules U rs c"
  using assms
proof (induction rs arbitrary: "done" c)
  case Nil
  then show ?case by simp
next
  case (Cons r rs)
  obtain g name v where r: "r = (g, name, v)" by (cases r)
  have wf: "wf_rule U (g, name, v)" using Cons.prems(1) r by simp
  let ?c = "chunk_sub U r None c"
  have own: "chunk_sub U r None ?c = ?c" unfolding r by (rule chunk_sub_idem [OF wf])
  have others: "chunk_sub U d None ?c = ?c" if "d \<in> set done" for d
  proof -
    obtain g' name' v' where d: "d = (g', name', v')" by (cases d)
    have wf': "wf_rule U (g', name', v')" using Cons.prems(1) that d by simp
    have "rule_name d \<in> set (map rule_name done)" using that by simp
    then have "name' \<in> set (map rule_name done)" unfolding d by simp
    moreover have "names_apart (map rule_name done @ name # map rule_name rs)"
      using Cons.prems(2) by (simp add: r)
    ultimately have ap: "\<not> suffix name' name" "\<not> suffix name name'"
      using names_apart_append by blast+
    have fx: "chunk_sub U (g', name', v') None c = c" using Cons.prems(3) that d by simp
    show ?thesis unfolding d r by (rule chunk_sub_keeps_fixed [OF wf' wf ap fx])
  qed
  have a1: "\<forall>r\<in>set ((done @ [r]) @ rs). wf_rule U r" using Cons.prems(1) by simp
  have a2: "names_apart (map rule_name ((done @ [r]) @ rs))" using Cons.prems(2) by simp
  have a3: "\<forall>d\<in>set (done @ [r]). chunk_sub U d None ?c = ?c" using own others by auto
  from Cons.IH [OF a1 a2 a3] show ?case unfolding chunk_rules_Cons by simp
qed

lemma chunk_rules_idem:
  assumes "\<forall>r\<in>set rs. wf_rule U r" and "names_apart (map rule_name rs)"
  shows "chunk_rules U rs (chunk_rules U rs c) = chunk_rules U rs c"
proof -
  have "\<forall>r\<in>set ([] @ rs). chunk_sub U r None (chunk_rules U rs c) = chunk_rules U rs c"
    by (rule chunk_rules_all_fixed) (use assms in simp_all)
  then show ?thesis by (intro chunk_rules_fixed) simp
qed

lemma rules_sub_idem:
  assumes wf: "\<forall>r\<in>set rs. wf_rule U r" and ap: "names_apart (map rule_name rs)"
  shows "rules_sub U rs (rules_sub U rs s) = rules_sub U rs s"
proof (induction s rule: length_induct)
  case (1 s)
  show ?case
  proof (cases "SEMI \<in> set s")
    case False
    then show ?thesis by (simp add: rules_sub_no_semi)
  next
    case True
    then obtain c rest where s: "s = c @ SEMI # rest" and c: "SEMI \<notin> set c"
      by (meson split_list_first)
    have len: "length rest < length s" unfolding s by simp
    have IH: "rules_sub U rs (rules_sub U rs rest) = rules_sub U rs rest" using 1 len by blast
    have c': "SEMI \<notin> set (chunk_rules U rs c)" by (rule chunk_rules_no_semi [OF wf c])
    show ?thesis
      unfolding s rules_sub_chunk [OF wf c] rules_sub_chunk [OF wf c'] chunk_rules_idem [OF wf ap] IH ..
  qed
qed

lemma gpu_rules_plain: "list_all plain_rule gpu_rules"
  by code_simp

lemma high_rules_plain: "list_all plain_rule (gpu_rules @ more_rules)"
  by code_simp

lemma gpu_names_apart: "names_apart (map rule_name gpu_rules)"
  by code_simp

lemma high_names_apart: "names_apart (map rule_name (gpu_rules @ more_rules))"
  by code_simp

lemma table_rules_idem:
  "rules_sub U (if profile hp = u ''high'' then gpu_rules @ more_rules else gpu_rules)
     (rules_sub U (if profile hp = u ''high'' then gpu_rules @ more_rules else gpu_rules) s) =
   rules_sub U (if profile hp = u ''high'' then gpu_rules @ more_rules else gpu_rules) s"
proof (cases "profile hp = u ''high''")
  case True
  have "\<forall>r\<in>set (gpu_rules @ more_rules). wf_rule U r"
    using high_rules_plain plain_wf unfolding list_all_iff by blast
  from rules_sub_idem [OF this high_names_apart] show ?thesis using True by simp
next
  case False
  have "\<forall>r\<in>set gpu_rules. wf_rule U r"
    using gpu_rules_plain plain_wf unfolding list_all_iff by blast
  from rules_sub_idem [OF this gpu_names_apart] show ?thesis using False by simp
qed

section \<open>The claims\<close>

text \<open>
  Claim C10. For both rule lists of the program (the full \<^verbatim>\<open>high\<close> list and the fallback
  list, whichever the profile selects), applying the rules to a content string without a
  semicolon returns the content unchanged.
\<close>

theorem no_terminator_unchanged:
  "SEMI \<notin> set content \<Longrightarrow> apply_content U self content (patches_of hp) = Inr content"
  using apply_content_described [OF patches_described] rules_sub_no_semi by simp

theorem no_terminator_unchanged_witness:
  "SEMI \<notin> set (u ''int x = 1'') \<and>
   apply_content ascii_ucd \<lparr>profile = u ''high''\<rparr> (u ''int x = 1'') (patches_of \<lparr>profile = u ''high''\<rparr>) =
     Inr (u ''int x = 1'')"
proof -
  have h: "SEMI \<notin> set (u ''int x = 1'')" by (simp add: u_def)
  show ?thesis using h no_terminator_unchanged [OF h] by blast
qed

text \<open>
  Claim C7. The rule list depends on the profile name only, and every profile name other
  than \<^verbatim>\<open>high\<close> yields the fallback list \<^verbatim>\<open>GPU_P\<close>, the three device-identity rules.
\<close>

theorem profile_fallback:
  "(profile a = profile b \<longrightarrow> patches_of a = patches_of b) \<and>
   (profile a \<noteq> u ''high'' \<longrightarrow>
      patches_of a = GPU_P \<and>
      map (\<lambda>(pattern, repl, ident). ident) (patches_of a) = [u ''gpu_vid'', u ''gpu_did'', u ''gpu_mem''])"
  by (simp add: patches_of_def GPU_P_def)

theorem profile_fallback_witness:
  "profile \<lparr>profile = u ''low''\<rparr> = profile \<lparr>profile = u ''low''\<rparr> \<and>
   profile \<lparr>profile = u ''low''\<rparr> \<noteq> u ''high'' \<and>
   patches_of \<lparr>profile = u ''low''\<rparr> = GPU_P \<and>
   map (\<lambda>(pattern, repl, ident). ident) (patches_of \<lparr>profile = u ''low''\<rparr>) =
     [u ''gpu_vid'', u ''gpu_did'', u ''gpu_mem'']"
proof -
  have h: "profile \<lparr>profile = u ''low''\<rparr> \<noteq> u ''high''" by (simp add: u_def)
  show ?thesis using h profile_fallback [of "\<lparr>profile = u ''low''\<rparr>" "\<lparr>profile = u ''low''\<rparr>"] by blast
qed


text \<open>
  Claim C1, as stated, fails: the loop writes every discovered file back without comparing
  the new text with the old one. A file that is already in the target state is written
  and logged like any other.
\<close>

theorem unchanged_file_still_written:
  "apply_content ascii_ucd \<lparr>profile = u ''low''\<rparr> (u ''adapter_id.vendor_id = 0x1002;'')
     (patches_of \<lparr>profile = u ''low''\<rparr>) = Inr (u ''adapter_id.vendor_id = 0x1002;'') \<and>
   writes (snd (HighPatcher_apply ascii_ucd \<lparr>profile = u ''low''\<rparr> (u ''r'')
                  (one_file_world (u ''adapter_id.vendor_id = 0x1002;'')))) =
     [(u ''r/device.c'', u ''adapter_id.vendor_id = 0x1002;'')] \<and>
   logged (snd (HighPatcher_apply ascii_ucd \<lparr>profile = u ''low''\<rparr> (u ''r'')
                  (one_file_world (u ''adapter_id.vendor_id = 0x1002;'')))) =
     [u ''Patched: r/device.c'']"
  by code_simp

text \<open>
  Claim C1, amended. In a run that completes, every discovered file is written back, in
  order, with the text the rule list produces from its content, whether or not that text
  differs from the content; each is logged as patched. (The discovered paths are taken to
  be distinct, as a directory walk lists them.)
\<close>

theorem every_file_written:
  assumes "distinct (cap_files self w src)"
    and "HighPatcher_apply U self src w = (Inr r, w')"
  shows "writes w' =
           writes w @ map (\<lambda>fp. (fp, patched_text U self (patches_of self) w fp)) (cap_files self w src) \<and>
         logged w' = logged w @ map (\<lambda>fp. u ''Patched: '' @ fp) (cap_files self w src)"
proof -
  have "patch_loop U self (patches_of self) (cap_files self w src) w = (Inr (), w')"
    using assms(2) unfolding HighPatcher_apply_def
    by (auto split: prod.splits sum.splits)
  from patch_loop_writes [OF assms(1) this] show ?thesis by blast
qed

theorem every_file_written_witness:
  "distinct (cap_files \<lparr>profile = u ''low''\<rparr> (one_file_world (u ''x = 1;'')) (u ''r'')) \<and>
   HighPatcher_apply ascii_ucd \<lparr>profile = u ''low''\<rparr> (u ''r'') (one_file_world (u ''x = 1;'')) =
     (Inr 0, snd (HighPatcher_apply ascii_ucd \<lparr>profile = u ''low''\<rparr> (u ''r'') (one_file_world (u ''x = 1;'')))) \<and>
   writes (snd (HighPatcher_apply ascii_ucd \<lparr>profile = u ''low''\<rparr> (u ''r'') (one_file_world (u ''x = 1;'')))) =
     writes (one_file_world (u ''x = 1;'')) @
     map (\<lambda>fp. (fp, patched_text ascii_ucd \<lparr>profile = u ''low''\<rparr> (patches_of \<lparr>profile = u ''low''\<rparr>)
                       (one_file_world (u ''x = 1;'')) fp))
       (cap_files \<lparr>profile = u ''low''\<rparr> (one_file_world (u ''x = 1;'')) (u ''r''))"
proof -
  let ?hp = "\<lparr>profile = u ''low''\<rparr>"
  let ?w = "one_file_world (u ''x = 1;'')"
  have h1: "distinct (cap_files ?hp ?w (u ''r''))" by code_simp
  have f: "fst (HighPatcher_apply ascii_ucd ?hp (u ''r'') ?w) = Inr 0" by code_simp
  have h2: "HighPatcher_apply ascii_ucd ?hp (u ''r'') ?w =
            (Inr 0, snd (HighPatcher_apply ascii_ucd ?hp (u ''r'') ?w))"
    using f by (metis prod.collapse)
  show ?thesis using h1 h2 every_file_written [OF h1 h2] by blast
qed

text \<open>
  Claim C2, as stated, fails: one file is modified by the run and the run returns 0.
\<close>

theorem modified_file_not_counted:
  "read_text (one_file_world (u ''adapter_id.vendor_id = 0x10DE;'')) (u ''r/device.c'') =
     Inr (u ''adapter_id.vendor_id = 0x10DE;'') \<and>
   read_text (snd (HighPatcher_apply ascii_ucd \<lparr>profile = u ''low''\<rparr> (u ''r'')
                     (one_file_world (u ''adapter_id.vendor_id = 0x10DE;'')))) (u ''r/device.c'') =
     Inr (u ''adapter_id.vendor_id = 0x1002;'') \<and>
   fst (HighPatcher_apply ascii_ucd \<lparr>profile = u ''low''\<rparr> (u ''r'')
          (one_file_world (u ''adapter_id.vendor_id = 0x10DE;''))) = Inr 0"
  by code_simp

text \<open>
  Claim C2, amended. The top-level run, given a root directory and a profile, returns 0
  whenever it completes, whatever the number of files it modified.
\<close>

theorem run_returns_zero:
  "fst (HighPatcher_apply U self src w) = Inr r \<Longrightarrow> r = 0"
  unfolding HighPatcher_apply_def by (auto split: prod.splits sum.splits)

theorem run_returns_zero_witness:
  "fst (HighPatcher_apply ascii_ucd \<lparr>profile = u ''low''\<rparr> (u ''r'')
          (one_file_world (u ''adapter_id.vendor_id = 0x10DE;''))) = Inr 0 \<and> (0::int) = 0"
proof -
  have h: "fst (HighPatcher_apply ascii_ucd \<lparr>profile = u ''low''\<rparr> (u ''r'')
          (one_file_world (u ''adapter_id.vendor_id = 0x10DE;''))) = Inr 0" by code_simp
  show ?thesis using h run_returns_zero [OF h] by blast
qed

text \<open>
  Claim C5. The excluded names are directory names, and discovery is meant to drop the
  paths under such a directory and keep the others. The code tests instead whether an
  excluded name occurs anywhere in the path string. At the input below the two disagree:
  \<^verbatim>\<open>proj/contests/device.c\<close> is a target file that lies under no excluded directory, the
  glob returns it, and discovery drops it, because \<^verbatim>\<open>tests\<close> occurs inside \<^verbatim>\<open>contests\<close>.
\<close>

theorem contests_file_dropped:
  "u ''proj/contests/device.c'' \<in> set (globr contest_world (path_join (u ''proj'') [u ''**'', u ''device.c''])) \<and>
   \<not> under_excluded (u ''proj/contests/device.c'') \<and>
   u ''proj/contests/device.c'' \<notin> set (find_files \<lparr>profile = u ''high''\<rparr> contest_world (u ''proj'') (u ''device.c''))"
  by code_simp

text \<open>
  Claim C6, as stated, fails: the first discovered file cannot be read, the run ends with
  the permission error, and the second file is neither written nor changed.
\<close>

theorem read_error_stops_run:
  "fst (HighPatcher_apply ascii_ucd \<lparr>profile = u ''low''\<rparr> (u ''r'') two_file_world) =
     Inl (OSError PermissionError) \<and>
   writes (snd (HighPatcher_apply ascii_ucd \<lparr>profile = u ''low''\<rparr> (u ''r'') two_file_world)) = [] \<and>
   read_text (snd (HighPatcher_apply ascii_ucd \<lparr>profile = u ''low''\<rparr> (u ''r'') two_file_world))
     (u ''r/b/device.c'') = Inr (u ''adapter_id.vendor_id = 0x10DE;'')"
  by code_simp

text \<open>
  Claim C6, amended. A read error on one discovered file is not recovered: the run ends
  there with that error, the file and the files after it are not processed, and what was
  written for the files before it stays.
\<close>

theorem read_error_aborts:
  assumes "cap_files self w src = before @ fp # after"
    and "patch_loop U self (patches_of self) before w = (Inr (), w1)"
    and "read_text w1 fp = Inl e"
  shows "HighPatcher_apply U self src w = (Inl (OSError e), w1)"
  unfolding HighPatcher_apply_def assms(1) patch_loop_append using assms(2,3) by simp

theorem read_error_aborts_witness:
  "cap_files \<lparr>profile = u ''low''\<rparr> two_file_world (u ''r'') = [] @ u ''r/a/device.c'' # [u ''r/b/device.c''] \<and>
   patch_loop ascii_ucd \<lparr>profile = u ''low''\<rparr> (patches_of \<lparr>profile = u ''low''\<rparr>) [] two_file_world =
     (Inr (), two_file_world) \<and>
   read_text two_file_world (u ''r/a/device.c'') = Inl PermissionError \<and>
   HighPatcher_apply ascii_ucd \<lparr>profile = u ''low''\<rparr> (u ''r'') two_file_world =
     (Inl (OSError PermissionError), two_file_world)"
proof -
  let ?hp = "\<lparr>profile = u ''low''\<rparr>"
  have h1: "cap_files ?hp two_file_world (u ''r'') = [] @ u ''r/a/device.c'' # [u ''r/b/device.c'']"
    by code_simp
  have h2: "patch_loop ascii_ucd ?hp (patches_of ?hp) [] two_file_world = (Inr (), two_file_world)"
    by simp
  have h3: "read_text two_file_world (u ''r/a/device.c'') = Inl PermissionError" by code_simp
  show ?thesis using h1 h2 h3 read_error_aborts [OF h1 h2 h3] by blast
qed

text \<open>
  Claim C3. Rule application is idempotent for both rule lists of the program (whichever
  the profile selects) and every content string: applying the rules succeeds, and applying
  them to the result gives the result again.
\<close>

theorem rules_idempotent:
  "\<exists>once. apply_content U self content (patches_of hp) = Inr once \<and>
          apply_content U self once (patches_of hp) = Inr once"
  unfolding apply_content_described [OF patches_described] using table_rules_idem by blast

end
